theory Spec2Isabelle
  imports Main "HOL-Library.Word"
begin

section \<open>Machine integers\<close>

text \<open>
  The generator works on \<^verbatim>\<open>unsigned int\<close> (32 bits) and, inside the prime selector and the
  modular squaring, on \<^verbatim>\<open>size_t\<close> and \<^verbatim>\<open>unsigned long long\<close> (64 bits on the LP64
  platforms the program is built for). Both are words: arithmetic wraps around, and a
  narrowing conversion keeps the low bits.
\<close>

type_synonym u32 = "32 word"
type_synonym u64 = "64 word"

section \<open>Primes\<close>

text \<open>
  Primality of a natural number: above 1 and without a divisor from 2 up to itself.
\<close>

definition is_prime :: "nat \<Rightarrow> bool" where
  "is_prime p \<longleftrightarrow> 1 < p \<and> (\<forall>d \<in> {2..<p}. \<not> d dvd p)"

lemma is_prime_divisors:
  "is_prime p \<longleftrightarrow> 1 < p \<and> (\<forall>d. d dvd p \<longrightarrow> d = 1 \<or> d = p)"
proof
  assume p: "is_prime p"
  show "1 < p \<and> (\<forall>d. d dvd p \<longrightarrow> d = 1 \<or> d = p)"
  proof (intro conjI allI impI)
    show "1 < p" using p by (simp add: is_prime_def)
  next
    fix d assume d: "d dvd p"
    have "0 < p" using p by (simp add: is_prime_def)
    with d have "d \<le> p" "d \<noteq> 0" by (auto dest: dvd_imp_le)
    show "d = 1 \<or> d = p"
    proof (rule ccontr)
      assume "\<not> (d = 1 \<or> d = p)"
      with \<open>d \<le> p\<close> \<open>d \<noteq> 0\<close> have "d \<in> {2..<p}" by auto
      with p d show False by (auto simp: is_prime_def)
    qed
  qed
next
  assume "1 < p \<and> (\<forall>d. d dvd p \<longrightarrow> d = 1 \<or> d = p)"
  then show "is_prime p" by (fastforce simp: is_prime_def)
qed

lemma prime_factor_exists: "1 < n \<Longrightarrow> \<exists>p. is_prime p \<and> p dvd n"
proof (induction n rule: less_induct)
  case (less n)
  show ?case
  proof (cases "is_prime n")
    case True
    then show ?thesis by auto
  next
    case False
    with less.prems obtain d where d: "d dvd n" "d \<noteq> 1" "d \<noteq> n"
      by (auto simp: is_prime_divisors)
    with less.prems have "1 < d" "d < n"
      by (auto dest: dvd_imp_le intro: Suc_lessI simp: neq0_conv[symmetric] simp del: neq0_conv)
    from less.IH[OF this(2) this(1)] obtain p where "is_prime p" "p dvd d" by blast
    with d(1) show ?thesis by (blast intro: dvd_trans)
  qed
qed

lemma prime_above: "\<exists>p. is_prime p \<and> n \<le> p"
proof -
  have "1 < fact n + (1::nat)" by (simp add: fact_gt_zero)
  then obtain p where p: "is_prime p" "p dvd fact n + 1"
    using prime_factor_exists by blast
  have "n < p"
  proof (rule ccontr)
    assume "\<not> n < p"
    moreover have "1 \<le> p" using p(1) by (simp add: is_prime_def)
    ultimately have "p dvd fact n" by (intro dvd_fact) auto
    with p(2) have "p dvd 1" using dvd_add_right_iff[of p "fact n" 1] by blast
    with p(1) show False by (simp add: is_prime_def)
  qed
  with p(1) show ?thesis by (auto intro: less_imp_le)
qed

section \<open>The next-prime collaborator\<close>

text \<open>
  Modelled from the spec: the body of \<^verbatim>\<open>__next_prime\<close> (next_prime.cpp) is not among the
  sources; only its declaration \<^verbatim>\<open>size_t __next_prime(size_t n)\<close> and its call
  \<^verbatim>\<open>__next_prime(prime+1)\<close> in the selector are. The spec gives the contract of that query:
  started from the range minus one and fed the selector's current value, it answers the
  smallest prime strictly greater than that value, so that the selector returns a prime
  that is at least the range. The source passes the current value plus one; hence
  \<^verbatim>\<open>__next_prime(m)\<close> is the smallest prime that is at least \<open>m\<close>, found here by searching
  upwards from \<open>m\<close>.
\<close>

function next_prime_nat :: "nat \<Rightarrow> nat" where
  "next_prime_nat n = (if is_prime n then n else next_prime_nat (Suc n))"
  by pat_completeness auto
termination
proof (relation "measure (\<lambda>n. (LEAST p. is_prime p \<and> n \<le> p) - n)")
  show "wf (measure (\<lambda>n. (LEAST p. is_prime p \<and> n \<le> p) - n))" by simp
next
  fix n assume n: "\<not> is_prime n"
  let ?P = "\<lambda>m p. is_prime p \<and> m \<le> p"
  obtain p where p: "?P n p" using prime_above by blast
  then have L: "?P n (LEAST p. ?P n p)" by (rule LeastI)
  with n have "n \<noteq> (LEAST p. ?P n p)" by auto
  with L have lt: "n < (LEAST p. ?P n p)" by auto
  then have "?P (Suc n) (LEAST p. ?P n p)" using L by auto
  then have "(LEAST p. ?P (Suc n) p) \<le> (LEAST p. ?P n p)" by (rule Least_le)
  with lt show "(Suc n, n) \<in> measure (\<lambda>n. (LEAST p. is_prime p \<and> n \<le> p) - n)"
    by simp
qed

declare next_prime_nat.simps [simp del]

text \<open>
  Modelled from the spec: \<^verbatim>\<open>__next_prime\<close> at its C type, the search above read through the
  64-bit argument and result.
\<close>

definition next_prime :: "u64 \<Rightarrow> u64" where
  "next_prime n = of_nat (next_prime_nat (unat n))"

section \<open>The unique-sequence generator\<close>

text \<open>
  \<^verbatim>\<open>get_next_suitable_prime\<close>:
  \<^verbatim>\<open>prime = n-1; do { prime = __next_prime(prime+1); } while (prime%4 != 3); return prime\<close>.
  The loop has no bound of its own, so it is a partial function: \<open>None\<close> is a run that
  never leaves the loop.
\<close>

partial_function (option) suitable_prime_loop :: "u64 \<Rightarrow> u64 option" where
  "suitable_prime_loop prime =
     (let prime' = next_prime (prime + 1)
      in if prime' mod 4 \<noteq> 3 then suitable_prime_loop prime' else Some prime')"

definition get_next_suitable_prime :: "u64 \<Rightarrow> u64 option" where
  "get_next_suitable_prime n = suitable_prime_loop (n - 1)"

text \<open>
  The four fields of \<^verbatim>\<open>class UniqueSeq\<close>.
\<close>

record UniqueSeq =
  m_index :: u32
  m_intermediateOffset :: u32
  m_prime :: u32
  m_range :: u32

text \<open>
  \<^verbatim>\<open>permuteQPR\<close> reads the field \<^verbatim>\<open>m_prime\<close> and nothing else of the object; the field is its
  first argument here. A value at or above the modulus is returned unchanged; otherwise the
  square is taken in 64 bits, reduced, narrowed back to 32 bits, and folded at half the
  modulus.
\<close>

definition permuteQPR :: "u32 \<Rightarrow> u32 \<Rightarrow> u32" where
  "permuteQPR prime x =
     (if x \<ge> prime then x
      else let residue = (ucast (((ucast x :: u64) * ucast x) mod ucast prime) :: u32)
           in if x \<le> prime div 2 then residue else prime - residue)"

text \<open>
  The constructor: \<^verbatim>\<open>m_range\<close> first, then \<^verbatim>\<open>m_prime\<close> (the constant 4294967291 for a range
  above it, the selector otherwise, its \<^verbatim>\<open>size_t\<close> result narrowed to 32 bits), then the
  seeded index and the offset, all in 32-bit arithmetic. It has no failing branch;
  \<open>None\<close> is a selector that does not return.
\<close>

definition UniqueSeq_ctor :: "u32 \<Rightarrow> u32 \<Rightarrow> UniqueSeq option" where
  "UniqueSeq_ctor rng seed =
     (case (if rng > 4294967291 then Some 4294967291
            else map_option ucast (get_next_suitable_prime (ucast rng))) of
        None \<Rightarrow> None
      | Some prime \<Rightarrow>
          Some \<lparr> m_index = permuteQPR prime (permuteQPR prime seed + 2 * prime - rng),
                 m_intermediateOffset = prime - rng,
                 m_prime = prime,
                 m_range = rng \<rparr>)"

text \<open>
  \<^verbatim>\<open>next()\<close>: the do-while loop. The remainder \<^verbatim>\<open>% m_prime\<close> is the one operation of the
  loop that can fault (a zero modulus); \<open>None\<close> is a loop that never accepts a
  candidate.
\<close>

datatype error = DivisionByZero

partial_function (option) UniqueSeq_next :: "UniqueSeq \<Rightarrow> (error + u32 \<times> UniqueSeq) option" where
  "UniqueSeq_next s =
     (let res = permuteQPR (m_prime s) (permuteQPR (m_prime s) (m_index s))
      in if m_prime s = 0 then Some (Inl DivisionByZero)
         else let s' = s\<lparr>m_index := (m_index s + 1) mod m_prime s\<rparr>
              in if res > m_range s then UniqueSeq_next s' else Some (Inr (res, s')))"

text \<open>
  \<open>n\<close> successive calls of \<^verbatim>\<open>next()\<close> on one generator, collecting the values returned
  (the loop of \<^verbatim>\<open>chooseSmart\<close>).
\<close>

fun next_n :: "nat \<Rightarrow> UniqueSeq \<Rightarrow> (error + u32 list \<times> UniqueSeq) option" where
  "next_n 0 s = Some (Inr ([], s))"
| "next_n (Suc n) s =
     (case UniqueSeq_next s of
        None \<Rightarrow> None
      | Some (Inl e) \<Rightarrow> Some (Inl e)
      | Some (Inr (v, s')) \<Rightarrow>
          (case next_n n s' of
             None \<Rightarrow> None
           | Some (Inl e) \<Rightarrow> Some (Inl e)
           | Some (Inr (vs, s'')) \<Rightarrow> Some (Inr (v # vs, s''))))"

section \<open>Notions used in the statements and proofs\<close>

text \<open>
  The permutation on natural numbers: the map the 32-bit code computes, free of word
  arithmetic.
\<close>

definition qpr :: "nat \<Rightarrow> nat \<Rightarrow> nat" where
  "qpr p x = (if p \<le> x then x
              else if x \<le> p div 2 then x * x mod p else p - x * x mod p)"

text \<open>
  The selector's query as the spec words it: the smallest prime strictly greater than
  \<open>n\<close>.
\<close>

definition probe :: "nat \<Rightarrow> nat" where
  "probe n = next_prime_nat (Suc n)"

text \<open>
  The loop of \<^verbatim>\<open>next()\<close>, iteration by iteration: the index before iteration \<open>k\<close>
  (each iteration advances it by one modulo the prime, in 32-bit arithmetic) and the
  candidate that iteration computes (the permutation applied twice to that index).
\<close>

fun index_after :: "UniqueSeq \<Rightarrow> nat \<Rightarrow> u32" where
  "index_after s 0 = m_index s"
| "index_after s (Suc k) = (index_after s k + 1) mod m_prime s"

definition candidate :: "UniqueSeq \<Rightarrow> nat \<Rightarrow> u32" where
  "candidate s k = permuteQPR (m_prime s) (permuteQPR (m_prime s) (index_after s k))"

text \<open>
  What a returned result of \<^verbatim>\<open>next()\<close> is, in these terms: a fault only on a zero
  modulus; otherwise the first candidate not above the range, with the index advanced once
  per iteration.
\<close>

definition first_accepted :: "UniqueSeq \<Rightarrow> error + u32 \<times> UniqueSeq \<Rightarrow> bool" where
  "first_accepted s r =
     (case r of
        Inl e \<Rightarrow> m_prime s = 0
      | Inr (v, s') \<Rightarrow> m_prime s \<noteq> 0 \<and>
          (\<exists>n. v = candidate s n \<and> s' = s\<lparr>m_index := index_after s (Suc n)\<rparr> \<and>
               candidate s n \<le> m_range s \<and> (\<forall>k<n. m_range s < candidate s k)))"

text \<open>
  Modular exponentiation by repeated squaring along the binary digits of the exponent,
  for checking primality certificates by rewriting.
\<close>

definition sqr_mod :: "nat \<Rightarrow> nat \<Rightarrow> nat" where
  "sqr_mod x n = x * x mod n"

definition mul_mod :: "nat \<Rightarrow> nat \<Rightarrow> nat \<Rightarrow> nat" where
  "mul_mod a x n = a * x mod n"

primrec powmod_num :: "nat \<Rightarrow> num \<Rightarrow> nat \<Rightarrow> nat" where
  "powmod_num a num.One n = a mod n"
| "powmod_num a (num.Bit0 k) n = sqr_mod (powmod_num a k n) n"
| "powmod_num a (num.Bit1 k) n = mul_mod a (sqr_mod (powmod_num a k n) n) n"

definition pow_mod :: "nat \<Rightarrow> nat \<Rightarrow> nat \<Rightarrow> nat" where
  "pow_mod a e n = a ^ e mod n"

section \<open>Divisibility by a prime\<close>

lemma prime_coprime: "is_prime p \<Longrightarrow> \<not> p dvd a \<Longrightarrow> coprime p a"
proof (rule coprimeI)
  fix c assume p: "is_prime p" and n: "\<not> p dvd a" and c: "c dvd p" "c dvd a"
  from p c(1) have "c = 1 \<or> c = p" by (simp add: is_prime_divisors)
  with n c(2) show "is_unit c" by auto
qed

lemma prime_dvd_mult: "is_prime p \<Longrightarrow> p dvd a * b \<Longrightarrow> p dvd a \<or> p dvd b"
  using prime_coprime coprime_dvd_mult_right_iff by blast

lemma prime_dvd_power: "is_prime p \<Longrightarrow> p dvd a ^ n \<Longrightarrow> p dvd a"
proof (induction n)
  case 0
  then show ?case by (simp add: is_prime_def)
next
  case (Suc n)
  then show ?case using prime_dvd_mult[of p a "a ^ n"] by auto
qed

lemma next_prime_nat_spec:
  "is_prime (next_prime_nat n) \<and> n \<le> next_prime_nat n \<and>
   (\<forall>q. is_prime q \<and> n \<le> q \<longrightarrow> next_prime_nat n \<le> q)"
proof (induction n rule: next_prime_nat.induct)
  case (1 n)
  show ?case
  proof (cases "is_prime n")
    case True
    then show ?thesis by (simp add: next_prime_nat.simps)
  next
    case False
    have eq: "next_prime_nat n = next_prime_nat (Suc n)"
      using False by (subst next_prime_nat.simps) simp
    from 1[OF False] show ?thesis
      unfolding eq using False
      by (metis Suc_leI Suc_leD le_neq_implies_less)
  qed
qed

section \<open>Unfolding the loops one step\<close>

lemma next_prime_nat_stop: "is_prime n \<Longrightarrow> next_prime_nat n = n"
  by (simp add: next_prime_nat.simps)

lemma next_prime_nat_step: "\<not> is_prime n \<Longrightarrow> next_prime_nat n = next_prime_nat (Suc n)"
  by (subst next_prime_nat.simps) simp

lemma suitable_prime_loop_stop:
  "next_prime (prime + 1) mod 4 = 3 \<Longrightarrow> suitable_prime_loop prime = Some (next_prime (prime + 1))"
  by (subst suitable_prime_loop.simps) (simp add: Let_def)

lemma suitable_prime_loop_step:
  "next_prime (prime + 1) mod 4 \<noteq> 3 \<Longrightarrow>
   suitable_prime_loop prime = suitable_prime_loop (next_prime (prime + 1))"
  by (subst suitable_prime_loop.simps) (simp add: Let_def)

lemma UniqueSeq_next_accept:
  "m_prime s \<noteq> 0 \<Longrightarrow>
   permuteQPR (m_prime s) (permuteQPR (m_prime s) (m_index s)) \<le> m_range s \<Longrightarrow>
   UniqueSeq_next s =
     Some (Inr (permuteQPR (m_prime s) (permuteQPR (m_prime s) (m_index s)),
                s\<lparr>m_index := (m_index s + 1) mod m_prime s\<rparr>))"
  by (subst UniqueSeq_next.simps) (simp add: Let_def not_less[symmetric] del: not_less)

lemma UniqueSeq_next_reject:
  "m_prime s \<noteq> 0 \<Longrightarrow>
   m_range s < permuteQPR (m_prime s) (permuteQPR (m_prime s) (m_index s)) \<Longrightarrow>
   UniqueSeq_next s = UniqueSeq_next (s\<lparr>m_index := (m_index s + 1) mod m_prime s\<rparr>)"
  by (subst UniqueSeq_next.simps) (simp add: Let_def)

section \<open>Fermat's little theorem and sums of two squares\<close>

lemma prime_dvd_choose:
  assumes p: "is_prime p" and k: "0 < k" "k < p"
  shows "p dvd (p choose k)"
proof -
  have "k * (p choose k) = p * ((p - 1) choose (k - 1))"
    using k by (simp add: times_binomial_minus1_eq)
  then have "p dvd k * (p choose k)" by simp
  moreover have "\<not> p dvd k" using k by (auto dest: dvd_imp_le)
  ultimately show ?thesis using prime_dvd_mult[OF p] by blast
qed

lemma freshman_dream:
  assumes p: "is_prime p"
  shows "(a + 1) ^ p mod p = (a ^ p + 1) mod (p::nat)"
proof -
  have p0: "0 < p" using p by (simp add: is_prime_def)
  have "(a + 1) ^ p = (\<Sum>k\<le>p. (p choose k) * a ^ k)"
    using binomial[of a 1 p] by simp
  also have "{..p} = insert 0 (insert p {1..<p})" using p0 by auto
  also have "(\<Sum>k\<in>insert 0 (insert p {1..<p}). (p choose k) * a ^ k)
     = 1 + (a ^ p + (\<Sum>k\<in>{1..<p}. (p choose k) * a ^ k))"
    using p0 by simp
  finally have eq: "(a + 1) ^ p = (a ^ p + 1) + (\<Sum>k\<in>{1..<p}. (p choose k) * a ^ k)"
    by simp
  have "p dvd (\<Sum>k\<in>{1..<p}. (p choose k) * a ^ k)"
  proof (rule dvd_sum)
    fix k assume "k \<in> {1..<p}"
    then have "p dvd (p choose k)" using prime_dvd_choose[OF p, of k] by simp
    then show "p dvd (p choose k) * a ^ k" by simp
  qed
  then show ?thesis unfolding eq by (metis mod_add_self2 dvd_def mod_mult_self2)
qed

lemma fermat_power: "is_prime p \<Longrightarrow> a ^ p mod p = a mod (p::nat)"
proof (induction a)
  case 0
  then show ?case by (cases p) (simp_all add: is_prime_def)
next
  case (Suc a)
  have "(Suc a) ^ p mod p = (a ^ p + 1) mod p"
    using freshman_dream[OF Suc.prems, of a] by simp
  also have "\<dots> = (a ^ p mod p + 1) mod p" by (simp only: mod_add_left_eq)
  also have "\<dots> = (a mod p + 1) mod p" using Suc by simp
  also have "\<dots> = (a + 1) mod p" by (simp only: mod_add_left_eq)
  also have "\<dots> = Suc a mod p" by simp
  finally show ?case .
qed

lemma fermat_little:
  assumes p: "is_prime p" and a: "\<not> p dvd a"
  shows "a ^ (p - 1) mod p = (1::nat)"
proof -
  have p1: "1 < p" using p by (simp add: is_prime_def)
  have a0: "0 < a" using a by (cases a) auto
  then have ge: "1 \<le> a ^ (p - 1)" by simp
  have split: "a ^ p = a * a ^ (p - 1)" using p1 by (cases p) simp_all
  have le: "a \<le> a ^ p" unfolding split using ge by simp
  have "a ^ p - a = a * (a ^ (p - 1) - 1)"
    unfolding split by (simp add: diff_mult_distrib2)
  moreover have "p dvd a ^ p - a"
    using fermat_power[OF p, of a] mod_eq_dvd_iff_nat[OF le, of p] by simp
  ultimately have "p dvd a * (a ^ (p - 1) - 1)" by simp
  with a have "p dvd a ^ (p - 1) - 1" using prime_dvd_mult[OF p] by blast
  then have "a ^ (p - 1) mod p = 1 mod p"
    using mod_eq_dvd_iff_nat[OF ge, of p] by simp
  with p1 show ?thesis by simp
qed

lemma odd_power_sum_dvd:
  fixes a b :: int
  shows "(a + b) dvd (a ^ (2 * k + 1) + b ^ (2 * k + 1))"
proof (induction k)
  case 0
  then show ?case by simp
next
  case (Suc k)
  have "a ^ (2 * Suc k + 1) + b ^ (2 * Suc k + 1)
      = a^2 * (a ^ (2 * k + 1) + b ^ (2 * k + 1)) - b ^ (2 * k + 1) * (a - b) * (a + b)"
    by (simp add: algebra_simps power2_eq_square)
  then show ?case using Suc by (simp add: dvd_diff dvd_mult)
qed

lemma sum_squares_prime:
  assumes p: "is_prime p" and p4: "p mod 4 = 3" and d: "p dvd x * x + y * (y::nat)"
  shows "p dvd x \<and> p dvd y"
proof (rule ccontr)
  assume neg: "\<not> (p dvd x \<and> p dvd y)"
  have nx: "\<not> p dvd x"
  proof
    assume "p dvd x"
    then have "p dvd x * x" by simp
    with d have "p dvd y * y" by (simp add: dvd_add_right_iff)
    then have "p dvd y" using prime_dvd_mult[OF p] by blast
    with \<open>p dvd x\<close> neg show False by simp
  qed
  have ny: "\<not> p dvd y"
  proof
    assume "p dvd y"
    then have "p dvd y * y" by simp
    with d have "p dvd x * x" by (simp add: dvd_add_left_iff)
    then have "p dvd x" using prime_dvd_mult[OF p] by blast
    with nx show False by simp
  qed
  define k where "k = p div 4"
  have pk: "p - 1 = 2 * (2 * k + 1)" using p4 unfolding k_def by presburger
  have "int (x * x + y * y) dvd (int (x * x)) ^ (2 * k + 1) + (int (y * y)) ^ (2 * k + 1)"
    using odd_power_sum_dvd[of "int (x * x)" "int (y * y)" k] by simp
  also have "(int (x * x)) ^ (2 * k + 1) + (int (y * y)) ^ (2 * k + 1)
      = int (x ^ (p - 1) + y ^ (p - 1))"
  proof -
    have "z ^ (2 * (2 * k + 1)) = (z * z) ^ (2 * k + 1)" for z :: nat
      by (simp only: power_mult power2_eq_square)
    then show ?thesis unfolding pk by (simp only: of_nat_add of_nat_power)
  qed
  finally have "x * x + y * y dvd x ^ (p - 1) + y ^ (p - 1)"
    by (simp only: of_nat_dvd_iff)
  with d have "p dvd x ^ (p - 1) + y ^ (p - 1)" by (rule dvd_trans)
  then have "(x ^ (p - 1) mod p + y ^ (p - 1) mod p) mod p = 0"
    by (simp add: mod_add_eq mod_eq_0_iff_dvd)
  then have "(1 + 1) mod p = 0"
    using fermat_little[OF p nx] fermat_little[OF p ny] by simp
  then have "p dvd 2" by (simp add: mod_eq_0_iff_dvd numeral_2_eq_2)
  then have "p \<le> 2" by (rule dvd_imp_le) simp
  with p4 show False by presburger
qed

section \<open>The quadratic-residue permutation is a bijection\<close>

lemma prime_dvd_small: "is_prime p \<Longrightarrow> x < p \<Longrightarrow> p dvd x \<Longrightarrow> x = 0"
  by (auto dest: dvd_imp_le)

lemma square_residue_nonzero:
  assumes p: "is_prime p" and x: "0 < x" "x < p"
  shows "0 < x * x mod p"
proof (rule ccontr)
  assume "\<not> 0 < x * x mod p"
  then have "p dvd x * x" by (simp add: mod_eq_0_iff_dvd)
  then have "p dvd x" using prime_dvd_mult[OF p] by blast
  with x show False using prime_dvd_small[OF p] by auto
qed

lemma qpr_less:
  assumes p: "is_prime p" and x: "x < p"
  shows "qpr p x < p"
proof -
  have p0: "0 < p" using x by simp
  show ?thesis
  proof (cases "x \<le> p div 2")
    case True
    with x p0 show ?thesis by (simp add: qpr_def)
  next
    case False
    then have "0 < x" by simp
    from square_residue_nonzero[OF p this x] p0 x False show ?thesis
      by (simp add: qpr_def)
  qed
qed

lemma squares_cong_prime:
  assumes p: "is_prime p" and e: "x * x mod p = y * y mod p" and le: "y \<le> (x::nat)"
  shows "p dvd x - y \<or> p dvd x + y"
proof -
  have "y * y \<le> x * x" using le by (simp add: mult_le_mono)
  then have "p dvd x * x - y * y" using e mod_eq_dvd_iff_nat[of "y * y" "x * x" p] by simp
  moreover have "x * x - y * y = (x - y) * (x + y)"
    using le by (simp add: algebra_simps diff_mult_distrib)
  ultimately show ?thesis using prime_dvd_mult[OF p] by auto
qed

lemma qpr_inj_aux:
  assumes p: "is_prime p" and p4: "p mod 4 = 3"
    and x: "x < p" and y: "y < p" and le: "y \<le> x" and e: "qpr p x = qpr p y"
  shows "x = y"
proof -
  have podd: "2 * (p div 2) + 1 = p" using p4 by presburger
  consider (low) "x \<le> p div 2" | (high) "p div 2 < y" | (mixed) "y \<le> p div 2" "p div 2 < x"
    using le by linarith
  then show ?thesis
  proof cases
    case low
    with le have ylow: "y \<le> p div 2" by simp
    from e low ylow x y have "x * x mod p = y * y mod p" by (simp add: qpr_def)
    from squares_cong_prime[OF p this le] show ?thesis
    proof
      assume "p dvd x - y"
      moreover have "x - y < p" using x by simp
      ultimately have "x - y = 0" using prime_dvd_small[OF p] by blast
      with le show ?thesis by simp
    next
      assume "p dvd x + y"
      moreover have "x + y < p" using low ylow podd by linarith
      ultimately have "x + y = 0" using prime_dvd_small[OF p] by blast
      then show ?thesis by simp
    qed
  next
    case high
    with le have xhigh: "p div 2 < x" by simp
    have rx: "x * x mod p < p" and ry: "y * y mod p < p" using x by simp_all
    from e high xhigh x y have "p - x * x mod p = p - y * y mod p" by (simp add: qpr_def)
    with rx ry have "x * x mod p = y * y mod p" by linarith
    from squares_cong_prime[OF p this le] show ?thesis
    proof
      assume "p dvd x - y"
      moreover have "x - y < p" using x by simp
      ultimately have "x - y = 0" using prime_dvd_small[OF p] by blast
      with le show ?thesis by simp
    next
      assume d: "p dvd x + y"
      have "p < x + y" "x + y < 2 * p" using high xhigh x y podd by linarith+
      then have "0 < x + y - p" "x + y - p < p" by linarith+
      moreover have "p dvd x + y - p" using d by (simp add: dvd_diff_nat)
      ultimately show ?thesis using prime_dvd_small[OF p, of "x + y - p"] by simp
    qed
  next
    case mixed
    have rx: "x * x mod p < p" using x by simp
    from e mixed x y have "p - x * x mod p = y * y mod p" by (simp add: qpr_def)
    with rx have "x * x mod p + y * y mod p = p" by linarith
    then have "(x * x + y * y) mod p = 0"
      by (metis mod_add_eq mod_self)
    then have "p dvd x * x + y * y" by (simp add: mod_eq_0_iff_dvd)
    from sum_squares_prime[OF p p4 this] have "p dvd x" by simp
    with x have "x = 0" using prime_dvd_small[OF p] by blast
    with mixed show ?thesis by simp
  qed
qed

lemma qpr_inj:
  assumes p: "is_prime p" and p4: "p mod 4 = 3"
  shows "inj_on (qpr p) {..<p}"
proof (rule inj_onI)
  fix x y assume xy: "x \<in> {..<p}" "y \<in> {..<p}" and e: "qpr p x = qpr p y"
  show "x = y"
  proof (cases "y \<le> x")
    case True
    with qpr_inj_aux[OF p p4 _ _ True e] xy show ?thesis by simp
  next
    case False
    then have "x \<le> y" by simp
    from qpr_inj_aux[OF p p4 _ _ this e[symmetric]] xy show ?thesis by simp
  qed
qed

lemma qpr_bij:
  assumes p: "is_prime p" and p4: "p mod 4 = 3"
  shows "bij_betw (qpr p) {..<p} {..<p}"
proof -
  have sub: "qpr p ` {..<p} \<subseteq> {..<p}" using qpr_less[OF p] by auto
  have "qpr p ` {..<p} = {..<p}"
    by (rule endo_inj_surj[OF _ sub qpr_inj[OF p p4]]) simp
  with qpr_inj[OF p p4] show ?thesis by (simp add: bij_betw_def)
qed

subsection \<open>The 32-bit code computes it\<close>

lemma unat_u32_bound: "unat (x :: u32) < 4294967296"
  using unsigned_less[of x, where 'a=nat] by simp

lemma unat_ucast_u32_u64: "unat (ucast (x :: u32) :: u64) = unat x"
  using unat_u32_bound[of x] by (simp add: unsigned_ucast_eq take_bit_nat_eq_self)

lemma unat_square_u64: "unat ((ucast (x :: u32) :: u64) * ucast x) = unat x * unat x"
proof -
  have "unat x * unat x < 4294967296 * 4294967296"
    using unat_u32_bound[of x] by (intro mult_strict_mono) simp_all
  then have "unat (ucast x :: u64) * unat (ucast x :: u64) < 2 ^ LENGTH(64)"
    by (simp add: unat_ucast_u32_u64)
  then show ?thesis by (simp add: unat_mult_lem[THEN iffD1] unat_ucast_u32_u64)
qed

lemma unat_residue:
  assumes "prime \<noteq> (0 :: u32)"
  shows "unat (ucast (((ucast (x :: u32) :: u64) * ucast x) mod ucast prime) :: u32)
          = unat x * unat x mod unat prime"
proof -
  have p0: "0 < unat prime" using assms by (simp add: unat_gt_0)
  have "unat x * unat x mod unat prime < unat prime" using p0 by simp
  then have "unat x * unat x mod unat prime < 4294967296"
    using unat_u32_bound[of prime] by linarith
  moreover have "unat (((ucast x :: u64) * ucast x) mod ucast prime)
      = unat x * unat x mod unat prime"
    by (simp only: unat_mod unat_square_u64 unat_ucast_u32_u64)
  ultimately show ?thesis
    by (simp only: unsigned_ucast_eq[where 'a=nat and 'c=32 and 'b=64]) (simp add: take_bit_nat_eq_self)
qed

lemma unat_permuteQPR: "unat (permuteQPR prime x) = qpr (unat prime) (unat x)"
proof (cases "prime \<le> x")
  case True
  then show ?thesis by (simp add: permuteQPR_def qpr_def word_le_nat_alt)
next
  case False
  then have p0: "prime \<noteq> 0" by auto
  have r: "unat x * unat x mod unat prime < unat prime"
    using p0 by (simp add: unat_gt_0)
  have half: "x \<le> prime div 2 \<longleftrightarrow> unat x \<le> unat prime div 2"
    by (simp add: word_le_nat_alt unat_div)
  have sub: "unat (prime - ucast (((ucast x :: u64) * ucast x) mod ucast prime))
      = unat prime - unat x * unat x mod unat prime"
    using r by (subst unat_sub) (simp_all add: word_le_nat_alt unat_residue[OF p0])
  show ?thesis using False
    by (simp add: permuteQPR_def qpr_def Let_def half sub unat_residue[OF p0]
        word_le_nat_alt[of prime x])
qed

lemma permuteQPR_bij:
  assumes p: "is_prime (unat prime)" and p4: "unat prime mod 4 = 3"
  shows "bij_betw (permuteQPR prime) {x. x < prime} {x. x < prime}"
proof -
  have inj: "inj_on (permuteQPR prime) {x. x < prime}"
  proof (rule inj_onI)
    fix x y assume xy: "x \<in> {x. x < prime}" "y \<in> {x. x < prime}"
      and e: "permuteQPR prime x = permuteQPR prime y"
    from e have "qpr (unat prime) (unat x) = qpr (unat prime) (unat y)"
      by (simp add: unat_permuteQPR[symmetric])
    moreover have "unat x \<in> {..<unat prime}" "unat y \<in> {..<unat prime}"
      using xy by (simp_all add: word_less_nat_alt)
    ultimately have "unat x = unat y" using qpr_inj[OF p p4] by (simp add: inj_on_def)
    then show "x = y" by (simp add: word_unat_eq_iff)
  qed
  have sub: "permuteQPR prime ` {x. x < prime} \<subseteq> {x. x < prime}"
    using qpr_less[OF p] by (auto simp: word_less_nat_alt unat_permuteQPR)
  have "permuteQPR prime ` {x. x < prime} = {x. x < prime}"
    by (rule endo_inj_surj[OF _ sub inj]) simp
  with inj show ?thesis by (simp add: bij_betw_def)
qed

section \<open>Primality certificates\<close>

text \<open>
  Lucas' test: \<open>n\<close> is prime when some \<open>a\<close> has order exactly \<open>n - 1\<close> modulo
  \<open>n\<close>. It settles the primality of 4294967291, the largest prime below \<open>2 ^ 32\<close>,
  by a handful of modular exponentiations.
\<close>

lemma powmod_num_eq: "powmod_num a k n = a ^ numeral k mod n"
proof (induction k)
  case One
  then show ?case by simp
next
  case (Bit0 k)
  have "a ^ numeral (num.Bit0 k) = a ^ numeral k * a ^ numeral k"
    by (simp only: numeral_Bit0 power_add)
  then show ?case using Bit0
    by (simp add: sqr_mod_def mod_mult_eq)
next
  case (Bit1 k)
  have "a ^ numeral (num.Bit1 k) = a ^ numeral k * a ^ numeral k * a"
    by (simp only: numeral_Bit1 power_add power_one_right)
  then have e: "a ^ numeral (num.Bit1 k) = a * (a ^ numeral k * a ^ numeral k)"
    by (simp only: mult.commute)
  have "powmod_num a (num.Bit1 k) n
      = a * ((a ^ numeral k mod n) * (a ^ numeral k mod n) mod n) mod n"
    by (simp only: powmod_num.simps Bit1 sqr_mod_def mul_mod_def)
  also have "\<dots> = a * (a ^ numeral k * a ^ numeral k mod n) mod n"
    by (simp only: mod_mult_eq)
  also have "\<dots> = a * (a ^ numeral k * a ^ numeral k) mod n"
    by (rule mod_mult_right_eq)
  also have "\<dots> = a ^ numeral (num.Bit1 k) mod n" by (simp only: e)
  finally show ?case .
qed

lemma pow_mod_numeral: "pow_mod a (numeral k) n = powmod_num a k n"
  by (simp add: pow_mod_def powmod_num_eq)

lemma pow_period:
  assumes "a ^ d mod n = (1::nat)"
  shows "a ^ (d * c + r) mod n = a ^ r mod n"
proof -
  have "(a ^ d) ^ c mod n = 1 mod n"
    using power_mod[of "a ^ d" n c] assms by simp
  then have "((a ^ d) ^ c * a ^ r) mod n = (1 * a ^ r) mod n"
    by (metis mod_mult_left_eq)
  then show ?thesis by (simp add: power_add power_mult)
qed

lemma lucas_order:
  assumes n: "2 \<le> n" and one: "a ^ (n - 1) mod n = 1"
    and q: "\<forall>q. is_prime q \<and> q dvd n - 1 \<longrightarrow> a ^ ((n - 1) div q) mod n \<noteq> 1"
    and k: "0 < k" "k < n - 1"
  shows "a ^ k mod n \<noteq> (1::nat)"
proof
  assume ak: "a ^ k mod n = 1"
  let ?P = "\<lambda>k. 0 < k \<and> a ^ k mod n = 1"
  define d where "d = (LEAST k. ?P k)"
  have Pk: "?P k" using k ak by simp
  have Pd: "?P d" unfolding d_def using Pk by (rule LeastI)
  have dk: "d \<le> k" unfolding d_def using Pk by (rule Least_le)
  have least: "\<not> ?P r" if "r < d" for r
    using that not_less_Least[of r ?P] unfolding d_def by blast
  define r where "r = (n - 1) mod d"
  have "n - 1 = d * ((n - 1) div d) + r" by (simp add: r_def)
  then have "a ^ (n - 1) mod n = a ^ r mod n"
    using pow_period[of a d n "(n - 1) div d" r] Pd by simp
  with one have "a ^ r mod n = 1" by simp
  moreover have "r < d" using Pd by (simp add: r_def)
  ultimately have "r = 0" using least[of r] by auto
  then have dvd: "d dvd n - 1" by (simp add: r_def mod_eq_0_iff_dvd)
  define m where "m = (n - 1) div d"
  have nm: "n - 1 = d * m" using dvd by (simp add: m_def)
  have "1 < m"
  proof (rule ccontr)
    assume "\<not> 1 < m"
    then have "m = 0 \<or> m = 1" by auto
    with nm k dk show False by auto
  qed
  then obtain p where p: "is_prime p" "p dvd m" using prime_factor_exists by blast
  then obtain t where t: "m = p * t" by (auto simp: dvd_def)
  have p0: "0 < p" using p(1) by (simp add: is_prime_def)
  have "p dvd n - 1" using nm t by simp
  moreover have "(n - 1) div p = d * t + 0" using nm t p0 by simp
  then have "a ^ ((n - 1) div p) mod n = a ^ 0 mod n"
    using pow_period[of a d n t 0] Pd by simp
  then have "a ^ ((n - 1) div p) mod n = 1" using n by simp
  ultimately show False using q p(1) by blast
qed

lemma lucas:
  assumes n: "2 \<le> n" and one: "a ^ (n - 1) mod n = 1"
    and q: "\<forall>q. is_prime q \<and> q dvd n - 1 \<longrightarrow> a ^ ((n - 1) div q) mod n \<noteq> 1"
  shows "is_prime n"
proof -
  have a0: "0 < a"
  proof (rule ccontr)
    assume "\<not> 0 < a"
    then have z: "a = 0" by simp
    obtain m where m: "n - 1 = Suc m" using n by (cases "n - 1") auto
    have "a ^ (n - 1) mod n = 0" unfolding z m by simp
    with one show False by simp
  qed
  have unit: "coprime (a ^ i) n" if "i \<le> n - 1" for i
  proof (rule coprimeI)
    fix c assume c: "c dvd a ^ i" "c dvd n"
    have "n - 1 = i + (n - 1 - i)" using that by simp
    then have "a ^ (n - 1) = a ^ i * a ^ (n - 1 - i)" by (metis power_add)
    with c(1) have "c dvd a ^ (n - 1)" by simp
    with c(2) have "c dvd a ^ (n - 1) mod n" by (simp add: dvd_mod_iff)
    with one show "is_unit c" by simp
  qed
  let ?f = "\<lambda>i. a ^ i mod n"
  have inj: "inj_on ?f {0..<n - 1}"
  proof (rule linorder_inj_onI)
    fix i j assume ij: "i < j" and i: "i \<in> {0..<n - 1}" and j: "j \<in> {0..<n - 1}"
    show "?f i \<noteq> ?f j"
    proof
      assume e: "?f i = ?f j"
      have le: "a ^ i \<le> a ^ j" using ij a0 by (simp add: power_increasing)
      have "a ^ j - a ^ i = a ^ i * (a ^ (j - i) - 1)"
        using ij by (simp add: diff_mult_distrib2 flip: power_add)
      moreover have "n dvd a ^ j - a ^ i"
        using e mod_eq_dvd_iff_nat[OF le, of n] by simp
      ultimately have "n dvd a ^ i * (a ^ (j - i) - 1)" by simp
      moreover have "coprime n (a ^ i)" using unit[of i] i by (simp add: coprime_commute)
      ultimately have "n dvd a ^ (j - i) - 1" by (simp add: coprime_dvd_mult_right_iff)
      moreover have "1 \<le> a ^ (j - i)" using a0 by simp
      ultimately have "a ^ (j - i) mod n = 1 mod n"
        using mod_eq_dvd_iff_nat[of 1 "a ^ (j - i)" n] by simp
      then have "a ^ (j - i) mod n = 1" using n by simp
      moreover have "0 < j - i" "j - i < n - 1" using ij j by auto
      ultimately show False using lucas_order[OF n one q] by blast
    qed
  qed (simp add: linear)
  let ?U = "{x \<in> {1..<n}. coprime x n}"
  have sub: "?f ` {0..<n - 1} \<subseteq> ?U"
  proof
    fix x assume "x \<in> ?f ` {0..<n - 1}"
    then obtain i where i: "i < n - 1" and x: "x = a ^ i mod n" by auto
    have cop: "coprime x n" using unit[of i] i by (simp add: x)
    have "x \<noteq> 0"
    proof
      assume "x = 0"
      with cop have "is_unit n" by simp
      with n show False by simp
    qed
    moreover have "x < n" using n by (simp add: x)
    ultimately show "x \<in> ?U" using cop by simp
  qed
  have "card (?f ` {0..<n - 1}) = n - 1" using inj by (simp add: card_image)
  moreover have "card (?f ` {0..<n - 1}) \<le> card ?U" by (rule card_mono[OF _ sub]) simp
  moreover have "card ?U \<le> card {1..<n}" by (rule card_mono) auto
  ultimately have "card ?U = card {1..<n}" by simp
  then have U: "?U = {1..<n}" by (intro card_subset_eq) auto
  show ?thesis unfolding is_prime_def
  proof (intro conjI ballI)
    show "1 < n" using n by simp
  next
    fix d assume d: "d \<in> {2..<n}"
    then have "d \<in> ?U" unfolding U by simp
    then have "coprime d n" by simp
    then show "\<not> d dvd n" using d by (auto simp: coprime_absorb_left)
  qed
qed

lemma prime_dvd_prod_list:
  "is_prime p \<Longrightarrow> p dvd prod_list qs \<Longrightarrow> \<exists>q \<in> set qs. p dvd q"
proof (induction qs)
  case Nil
  then show ?case by (simp add: is_prime_def)
next
  case (Cons q qs)
  then show ?case using prime_dvd_mult[of p q "prod_list qs"] by auto
qed

lemma lucas_certificate:
  assumes n: "2 \<le> n" and one: "pow_mod a (n - 1) n = 1"
    and fs: "prod_list qs = n - 1"
    and q: "\<forall>q \<in> set qs. is_prime q \<and> pow_mod a ((n - 1) div q) n \<noteq> 1"
  shows "is_prime n"
proof (rule lucas[OF n])
  show "a ^ (n - 1) mod n = 1" using one by (simp add: pow_mod_def)
next
  show "\<forall>p. is_prime p \<and> p dvd n - 1 \<longrightarrow> a ^ ((n - 1) div p) mod n \<noteq> 1"
  proof (intro allI impI)
    fix p assume p: "is_prime p \<and> p dvd n - 1"
    then obtain q' where q': "q' \<in> set qs" "p dvd q'"
      using prime_dvd_prod_list[of p qs] fs by auto
    with q have "is_prime q'" by simp
    with q'(2) p have "p = q'" by (auto simp: is_prime_divisors)
    with q q'(1) show "a ^ ((n - 1) div p) mod n \<noteq> 1" by (simp add: pow_mod_def)
  qed
qed

lemma is_prime_sqrt:
  assumes "1 < n" and "n < m * m" and "\<forall>d \<in> {2..<m}. \<not> d dvd n"
  shows "is_prime n"
  unfolding is_prime_def
proof (intro conjI ballI)
  show "1 < n" by fact
next
  fix d assume d: "d \<in> {2..<n}"
  show "\<not> d dvd n"
  proof
    assume dv: "d dvd n"
    then obtain e where e: "n = d * e" by (auto simp: dvd_def)
    have "d < m \<or> e < m"
    proof (rule ccontr)
      assume "\<not> (d < m \<or> e < m)"
      then have "m * m \<le> d * e" by (intro mult_le_mono) auto
      with e assms(2) show False by simp
    qed
    moreover have "2 \<le> e" using e d by (cases e; cases "e - 1") auto
    moreover have "e dvd n" using e by simp
    ultimately show False using assms(3) d dv by auto
  qed
qed

lemma small_primes:
  "is_prime 2" "is_prime 3" "is_prime 5" "is_prime 19" "is_prime 23"
  by (simp_all add: is_prime_def atLeastLessThan_nat_numeral)

lemma prime_181: "is_prime 181"
  by (rule is_prime_sqrt[where m = 14]) (simp_all add: atLeastLessThan_nat_numeral)

lemma prime_22605091: "is_prime 22605091"
  by (rule lucas_certificate[where a = 11 and qs = "[2, 3, 5, 23, 181, 181]"])
     (simp_all add: small_primes prime_181 pow_mod_numeral sqr_mod_def mul_mod_def)

lemma prime_4294967291: "is_prime 4294967291"
  by (rule lucas_certificate[where a = 2 and qs = "[2, 5, 19, 22605091]"])
     (simp_all add: small_primes prime_22605091 pow_mod_numeral sqr_mod_def mul_mod_def)

lemma more_small_primes: "is_prime 13" "is_prime 29"
  by (simp_all add: is_prime_def atLeastLessThan_nat_numeral)

lemma prime_523: "is_prime 523"
  by (rule is_prime_sqrt[where m = 23]) (simp_all add: atLeastLessThan_nat_numeral)

lemma prime_6277: "is_prime 6277"
  by (rule lucas_certificate[where a = 2 and qs = "[2, 2, 3, 523]"])
     (simp_all add: small_primes prime_523 pow_mod_numeral sqr_mod_def mul_mod_def)

lemma prime_9038881: "is_prime 9038881"
  by (rule lucas_certificate[where a = 7 and qs = "[2, 2, 2, 2, 2, 3, 3, 5, 6277]"])
     (simp_all add: small_primes prime_6277 pow_mod_numeral sqr_mod_def mul_mod_def)

lemma prime_705032719: "is_prime 705032719"
  by (rule lucas_certificate[where a = 6 and qs = "[2, 3, 13, 9038881]"])
     (simp_all add: small_primes more_small_primes prime_9038881 pow_mod_numeral
        sqr_mod_def mul_mod_def)

lemma not_prime_if_dvd: "d dvd n \<Longrightarrow> 1 < d \<Longrightarrow> d < n \<Longrightarrow> \<not> is_prime n"
  by (auto simp: is_prime_def)

lemma composites_below_705032719:
  "\<not> is_prime 705032707" "\<not> is_prime 705032711" "\<not> is_prime 705032715"
  by (rule not_prime_if_dvd[where d = 757], simp_all)
     (rule not_prime_if_dvd[where d = 8779], simp_all,
      rule not_prime_if_dvd[where d = 3], simp_all)

section \<open>The prime selector\<close>

lemma not_prime_0: "\<not> is_prime 0"
  by (simp add: is_prime_def)

lemma probe_pred: "probe (n - 1) = next_prime_nat n"
proof (cases n)
  case 0
  then show ?thesis by (simp add: probe_def next_prime_nat_step[OF not_prime_0])
next
  case (Suc m)
  then show ?thesis by (simp add: probe_def)
qed

lemma probe_least:
  "is_prime (probe n) \<and> n < probe n \<and> (\<forall>q. is_prime q \<and> n < q \<longrightarrow> probe n \<le> q)"
  using next_prime_nat_spec[of "Suc n"] by (auto simp: probe_def Suc_le_eq)

lemma mod4_4294967291: "(4294967291::nat) mod 4 = 3"
  by simp

lemma next_prime_nat_bound: "n \<le> 4294967291 \<Longrightarrow> next_prime_nat n \<le> 4294967291"
  using next_prime_nat_spec[of n] prime_4294967291 by blast

lemma unat_of_nat_u64: "q \<le> 4294967291 \<Longrightarrow> unat (of_nat q :: u64) = q"
  by (simp add: unat_of_nat)

lemma unat_of_nat_u32: "q \<le> 4294967291 \<Longrightarrow> unat (of_nat q :: u32) = q"
  by (simp add: unat_of_nat)

lemma u64_mod4: "(w :: u64) mod 4 = 3 \<longleftrightarrow> unat w mod 4 = 3"
proof -
  have "w mod 4 = 3 \<longleftrightarrow> unat (w mod 4) = unat (3 :: u64)"
    by (rule word_unat_eq_iff)
  then show ?thesis by (simp add: unat_mod)
qed

lemma suitable_prime_loop_least:
  assumes "unat m \<le> 4294967291"
  shows "\<exists>q. suitable_prime_loop (m - 1) = Some (of_nat q) \<and>
           is_prime q \<and> q mod 4 = 3 \<and> unat m \<le> q \<and> q \<le> 4294967291 \<and>
           (\<forall>q'. is_prime q' \<and> q' mod 4 = 3 \<and> unat m \<le> q' \<longrightarrow> q \<le> q') \<and>
           (\<exists>k. q = (probe ^^ Suc k) (unat m - 1) \<and>
                (\<forall>j<k. (probe ^^ Suc j) (unat m - 1) mod 4 \<noteq> 3))"
  using assms
proof (induction "4294967291 - unat m" arbitrary: m rule: less_induct)
  case less
  define q0 where "q0 = next_prime_nat (unat m)"
  have q0: "is_prime q0" "unat m \<le> q0" "\<And>q'. is_prime q' \<Longrightarrow> unat m \<le> q' \<Longrightarrow> q0 \<le> q'"
    using next_prime_nat_spec[of "unat m"] by (auto simp: q0_def)
  have q0b: "q0 \<le> 4294967291"
    unfolding q0_def using less.prems by (rule next_prime_nat_bound)
  have np: "next_prime (m - 1 + 1) = of_nat q0"
    by (simp add: next_prime_def q0_def)
  have uq: "unat (of_nat q0 :: u64) = q0" using q0b by (rule unat_of_nat_u64)
  have pq: "probe (unat m - 1) = q0" unfolding q0_def by (rule probe_pred)
  show ?case
  proof (cases "q0 mod 4 = 3")
    case True
    then have "next_prime (m - 1 + 1) mod 4 = 3" unfolding np by (simp add: u64_mod4 uq)
    then have "suitable_prime_loop (m - 1) = Some (of_nat q0)"
      using suitable_prime_loop_stop[of "m - 1"] unfolding np by blast
    moreover have "\<exists>k. q0 = (probe ^^ Suc k) (unat m - 1) \<and>
        (\<forall>j<k. (probe ^^ Suc j) (unat m - 1) mod 4 \<noteq> 3)"
      using pq by (intro exI[of _ 0]) simp
    ultimately show ?thesis using q0 q0b True by (intro exI[of _ q0]) blast
  next
    case False
    then have "next_prime (m - 1 + 1) mod 4 \<noteq> 3" unfolding np by (simp add: u64_mod4 uq)
    then have step: "suitable_prime_loop (m - 1) = suitable_prime_loop (of_nat q0)"
      using suitable_prime_loop_step[of "m - 1"] unfolding np by blast
    define m' :: u64 where "m' = of_nat q0 + 1"
    have "q0 \<noteq> 4294967291" using False mod4_4294967291 by auto
    with q0b have q0lt: "q0 < 4294967291" by simp
    have um': "unat m' = Suc q0"
    proof -
      have "unat (of_nat q0 :: u64) + unat (1 :: u64) < 2 ^ LENGTH(64)"
        using q0lt by (simp add: uq)
      then have "unat (of_nat q0 + 1 :: u64) = unat (of_nat q0 :: u64) + unat (1 :: u64)"
        by (simp only: unat_add_lem)
      then show ?thesis by (simp add: m'_def uq)
    qed
    have m'1: "m' - 1 = of_nat q0" by (simp add: m'_def)
    have "4294967291 - unat m' < 4294967291 - unat m" "unat m' \<le> 4294967291"
      using q0(2) q0lt by (simp_all add: um')
    from less.hyps[OF this] obtain q k where
      loop: "suitable_prime_loop (m' - 1) = Some (of_nat q)" and
      q: "is_prime q" "q mod 4 = 3" "unat m' \<le> q" "q \<le> 4294967291" and
      least: "\<forall>q'. is_prime q' \<and> q' mod 4 = 3 \<and> unat m' \<le> q' \<longrightarrow> q \<le> q'" and
      it: "q = (probe ^^ Suc k) (unat m' - 1)" and
      before: "\<forall>j<k. (probe ^^ Suc j) (unat m' - 1) mod 4 \<noteq> 3"
      by blast
    have sh: "(probe ^^ Suc j) (unat m' - 1) = (probe ^^ Suc (Suc j)) (unat m - 1)" for j
      using pq by (simp add: um' funpow_swap1)
    have least': "\<forall>q'. is_prime q' \<and> q' mod 4 = 3 \<and> unat m \<le> q' \<longrightarrow> q \<le> q'"
    proof (intro allI impI)
      fix q' assume q': "is_prime q' \<and> q' mod 4 = 3 \<and> unat m \<le> q'"
      then have "q0 \<le> q'" using q0(3) by blast
      moreover have "q' \<noteq> q0" using q' False by auto
      ultimately have "unat m' \<le> q'" by (simp add: um')
      with q' least show "q \<le> q'" by blast
    qed
    have before': "\<forall>j<Suc k. (probe ^^ Suc j) (unat m - 1) mod 4 \<noteq> 3"
    proof (intro allI impI)
      fix j assume j: "j < Suc k"
      show "(probe ^^ Suc j) (unat m - 1) mod 4 \<noteq> 3"
      proof (cases j)
        case 0
        then show ?thesis using False pq by simp
      next
        case (Suc i)
        with j have "i < k" by simp
        with before have "(probe ^^ Suc i) (unat m' - 1) mod 4 \<noteq> 3" by blast
        then show ?thesis unfolding Suc sh .
      qed
    qed
    have "suitable_prime_loop (m - 1) = Some (of_nat q)"
      using step loop by (simp add: m'1)
    moreover have "unat m \<le> q" using q(3) q0(2) by (simp add: um')
    moreover have "q = (probe ^^ Suc (Suc k)) (unat m - 1)" using it sh by simp
    then have "\<exists>k. q = (probe ^^ Suc k) (unat m - 1) \<and>
        (\<forall>j<k. (probe ^^ Suc j) (unat m - 1) mod 4 \<noteq> 3)"
      using before' by (intro exI[of _ "Suc k"]) blast
    ultimately show ?thesis using q(1,2,4) least'
      by (intro exI[of _ q]) blast
  qed
qed

section \<open>The constructor\<close>

lemma ucast_of_nat_u64_u32:
  "q \<le> 4294967291 \<Longrightarrow> (ucast (of_nat q :: u64) :: u32) = of_nat q"
  by (simp add: word_unat_eq_iff unsigned_ucast_eq unat_of_nat take_bit_eq_mod)

lemma unat_cap: "unat (4294967291 :: u32) = 4294967291"
  by simp

lemma ctor_below_cap:
  assumes "rng \<le> 4294967291"
  shows "\<exists>g q. UniqueSeq_ctor rng seed = Some g \<and> m_prime g = of_nat q \<and> unat (m_prime g) = q \<and>
           m_range g = rng \<and>
           m_index g = permuteQPR (m_prime g) (permuteQPR (m_prime g) seed + 2 * m_prime g - rng) \<and>
           m_intermediateOffset g = m_prime g - rng \<and>
           get_next_suitable_prime (ucast rng) = Some (of_nat q) \<and>
           is_prime q \<and> q mod 4 = 3 \<and> unat rng \<le> q \<and> q \<le> 4294967291 \<and>
           (\<forall>q'. is_prime q' \<and> q' mod 4 = 3 \<and> unat rng \<le> q' \<longrightarrow> q \<le> q') \<and>
           (\<exists>k. q = (probe ^^ Suc k) (unat rng - 1) \<and>
                (\<forall>j<k. (probe ^^ Suc j) (unat rng - 1) mod 4 \<noteq> 3))"
proof -
  have ur: "unat (ucast rng :: u64) = unat rng" by (rule unat_ucast_u32_u64)
  have "unat rng \<le> 4294967291" using assms by (simp add: word_le_nat_alt)
  then have "unat (ucast rng :: u64) \<le> 4294967291" by (simp only: ur)
  from suitable_prime_loop_least[OF this] obtain q where
    loop: "suitable_prime_loop (ucast rng - 1) = Some (of_nat q)" and
    q: "is_prime q" "q mod 4 = 3" "unat rng \<le> q" "q \<le> 4294967291"
       "\<forall>q'. is_prime q' \<and> q' mod 4 = 3 \<and> unat rng \<le> q' \<longrightarrow> q \<le> q'"
       "\<exists>k. q = (probe ^^ Suc k) (unat rng - 1) \<and>
                (\<forall>j<k. (probe ^^ Suc j) (unat rng - 1) mod 4 \<noteq> 3)"
    unfolding ur by blast
  have sel: "get_next_suitable_prime (ucast rng) = Some (of_nat q)"
    by (simp add: get_next_suitable_prime_def loop)
  have nocap: "\<not> 4294967291 < rng" using assms by (simp add: not_less)
  let ?p = "of_nat q :: u32"
  let ?g = "\<lparr> m_index = permuteQPR ?p (permuteQPR ?p seed + 2 * ?p - rng),
             m_intermediateOffset = ?p - rng, m_prime = ?p, m_range = rng \<rparr>"
  have "UniqueSeq_ctor rng seed = Some ?g"
    unfolding UniqueSeq_ctor_def using nocap
    by (simp add: sel ucast_of_nat_u64_u32[OF q(4)])
  then show ?thesis using q sel unat_of_nat_u32[OF q(4)]
    by (intro exI[of _ ?g] exI[of _ q]) simp
qed

lemma ctor_above_cap:
  assumes "4294967291 < rng"
  shows "UniqueSeq_ctor rng seed =
      Some \<lparr> m_index = permuteQPR 4294967291 (permuteQPR 4294967291 seed + 2 * 4294967291 - rng),
             m_intermediateOffset = 4294967291 - rng, m_prime = 4294967291, m_range = rng \<rparr>"
  using assms by (simp add: UniqueSeq_ctor_def)

lemma ctor_total:
  "\<exists>g. UniqueSeq_ctor rng seed = Some g \<and> m_range g = rng \<and>
        is_prime (unat (m_prime g)) \<and> unat (m_prime g) mod 4 = 3"
proof (cases "rng \<le> 4294967291")
  case True
  from ctor_below_cap[OF this, of seed] show ?thesis by auto
next
  case False
  then have "4294967291 < rng" by simp
  from ctor_above_cap[OF this, of seed] show ?thesis
    using prime_4294967291 by simp
qed

section \<open>The loop of next()\<close>

lemma index_after_advance:
  "index_after (s\<lparr>m_index := (m_index s + 1) mod m_prime s\<rparr>) k = index_after s (Suc k)"
  by (induction k) simp_all

lemma candidate_advance:
  "candidate (s\<lparr>m_index := (m_index s + 1) mod m_prime s\<rparr>) k = candidate s (Suc k)"
  by (simp add: candidate_def index_after_advance del: index_after.simps)

lemma candidate_0:
  "candidate s 0 = permuteQPR (m_prime s) (permuteQPR (m_prime s) (m_index s))"
  by (simp add: candidate_def)

lemma next_first_accepted:
  assumes "m_prime s \<noteq> 0"
    and "\<forall>k<n. m_range s < candidate s k"
    and "candidate s n \<le> m_range s"
  shows "UniqueSeq_next s = Some (Inr (candidate s n, s\<lparr>m_index := index_after s (Suc n)\<rparr>))"
  using assms
proof (induction n arbitrary: s)
  case 0
  then show ?case using UniqueSeq_next_accept[of s] by (simp add: candidate_0)
next
  case (Suc n)
  let ?s = "s\<lparr>m_index := (m_index s + 1) mod m_prime s\<rparr>"
  have "m_range s < candidate s 0" using Suc.prems(2) by blast
  then have step: "UniqueSeq_next s = UniqueSeq_next ?s"
    using UniqueSeq_next_reject[of s] Suc.prems(1) by (simp add: candidate_0)
  have "m_prime ?s \<noteq> 0" using Suc.prems(1) by simp
  moreover have "\<forall>k<n. m_range ?s < candidate ?s k"
    using Suc.prems(2) by (simp add: candidate_advance)
  moreover have "candidate ?s n \<le> m_range ?s"
    using Suc.prems(3) by (simp add: candidate_advance)
  ultimately have "UniqueSeq_next ?s =
      Some (Inr (candidate ?s n, ?s\<lparr>m_index := index_after ?s (Suc n)\<rparr>))"
    by (rule Suc.IH)
  then show ?case unfolding step
    by (simp add: candidate_advance index_after_advance del: index_after.simps)
qed

lemma word_mod_less: "p \<noteq> 0 \<Longrightarrow> x mod p < (p :: u32)"
  by (simp add: word_less_nat_alt unat_mod unat_gt_0)

lemma index_after_less: "m_prime s \<noteq> 0 \<Longrightarrow> index_after s (Suc k) < m_prime s"
  by (simp add: word_mod_less)

lemma unat_index_after:
  assumes p: "m_prime s \<noteq> 0"
  shows "unat (index_after s (Suc k)) = (unat (index_after s 1) + k) mod unat (m_prime s)"
proof (induction k)
  case 0
  have "index_after s 1 < m_prime s" using index_after_less[OF p, of 0] by simp
  then show ?case by (simp add: word_less_nat_alt)
next
  case (Suc k)
  let ?i = "index_after s (Suc k)"
  have lt: "unat ?i < unat (m_prime s)"
    using index_after_less[OF p, of k] by (simp add: word_less_nat_alt)
  have "unat ?i + unat (1 :: u32) < 2 ^ LENGTH(32)"
    using lt unat_u32_bound[of "m_prime s"] by simp
  then have "unat (?i + 1) = unat ?i + unat (1 :: u32)" by (simp only: unat_add_lem)
  then have "unat (index_after s (Suc (Suc k))) = (unat ?i + 1) mod unat (m_prime s)"
    by (simp add: unat_mod)
  also have "\<dots> = ((unat (index_after s 1) + k) mod unat (m_prime s) + 1) mod unat (m_prime s)"
    by (simp only: Suc.IH)
  also have "\<dots> = (unat (index_after s 1) + Suc k) mod unat (m_prime s)"
    by (simp add: mod_Suc_eq)
  finally show ?case .
qed

lemma qpr_0: "0 < p \<Longrightarrow> qpr p 0 = 0"
  by (simp add: qpr_def)

lemma qpr_1:
  assumes "2 \<le> p"
  shows "qpr p 1 = 1"
proof -
  have "1 \<le> p div 2" using assms by presburger
  moreover have "\<not> p \<le> 1" using assms by simp
  moreover have "1 * 1 mod p = (1::nat)" using assms by simp
  ultimately show ?thesis unfolding qpr_def by (simp only: if_True if_False)
qed

lemma permuteQPR_0:
  assumes "p \<noteq> 0"
  shows "permuteQPR p 0 = 0"
proof -
  have "0 < unat p" using assms by (simp add: unat_gt_0)
  then have "unat (permuteQPR p 0) = 0" by (simp add: unat_permuteQPR qpr_0)
  then show ?thesis by (simp add: unat_eq_zero)
qed

lemma permuteQPR_1: "2 \<le> unat p \<Longrightarrow> permuteQPR p 1 = 1"
  using qpr_1[of "unat p"] by (simp add: word_unat_eq_iff unat_permuteQPR)

lemma accepted_within_period:
  assumes p: "2 \<le> unat (m_prime s)" and r: "1 \<le> m_range s"
  shows "\<exists>n < unat (m_prime s). candidate s n \<le> m_range s"
proof -
  have p0: "m_prime s \<noteq> 0" using p by auto
  define j where "j = unat (index_after s 1)"
  have jlt: "j < unat (m_prime s)"
    using index_after_less[OF p0, of 0] by (simp add: j_def word_less_nat_alt)
  show ?thesis
  proof (cases "j \<le> 1")
    case True
    define i where "i = index_after s 1"
    have "unat i = 0 \<or> unat i = 1" using True unfolding j_def i_def by linarith
    then have "i = 0 \<or> i = 1" by (simp add: word_unat_eq_iff)
    then have "permuteQPR (m_prime s) (permuteQPR (m_prime s) i) = i"
      using permuteQPR_0[OF p0] permuteQPR_1[OF p] by auto
    then have "candidate s 1 = i" unfolding candidate_def i_def .
    with \<open>i = 0 \<or> i = 1\<close> r have "candidate s 1 \<le> m_range s" by auto
    then show ?thesis using p by (intro exI[of _ 1]) simp
  next
    case False
    define n where "n = unat (m_prime s) - j"
    have "unat (index_after s (Suc n)) = (j + n) mod unat (m_prime s)"
      unfolding j_def by (rule unat_index_after[OF p0])
    also have "j + n = unat (m_prime s)" using jlt by (simp add: n_def)
    finally have "index_after s (Suc n) = 0" by (simp add: unat_eq_zero)
    then have "candidate s (Suc n) = 0"
      unfolding candidate_def using permuteQPR_0[OF p0] by simp
    moreover have "Suc n < unat (m_prime s)" using False jlt by (simp add: n_def)
    ultimately show ?thesis by (intro exI[of _ "Suc n"]) simp
  qed
qed

lemma next_returns:
  assumes p: "2 \<le> unat (m_prime s)" and r: "1 \<le> m_range s"
  shows "\<exists>n < unat (m_prime s). (\<forall>k<n. m_range s < candidate s k) \<and>
           candidate s n \<le> m_range s \<and>
           UniqueSeq_next s = Some (Inr (candidate s n, s\<lparr>m_index := index_after s (Suc n)\<rparr>))"
proof -
  let ?P = "\<lambda>n. candidate s n \<le> m_range s"
  define n where "n = (LEAST n. ?P n)"
  obtain n0 where n0: "n0 < unat (m_prime s)" "?P n0"
    using accepted_within_period[OF p r] by blast
  have Pn: "?P n" unfolding n_def using n0(2) by (rule LeastI)
  have "n \<le> n0" unfolding n_def using n0(2) by (rule Least_le)
  with n0(1) have nlt: "n < unat (m_prime s)" by simp
  have before: "\<forall>k<n. m_range s < candidate s k"
    using not_less_Least[of _ ?P] unfolding n_def by (auto simp: not_le)
  have p0: "m_prime s \<noteq> 0" using p by auto
  from next_first_accepted[OF p0 before Pn] nlt before Pn show ?thesis by blast
qed

lemma next_returned_first_accepted:
  assumes "UniqueSeq_next s = Some r"
  shows "first_accepted s r"
proof (rule UniqueSeq_next.raw_induct[where P = first_accepted, OF _ assms], goal_cases)
  case (1 nxt s r)
  let ?s = "s\<lparr>m_index := (m_index s + 1) mod m_prime s\<rparr>"
  show ?case
  proof (cases "m_prime s = 0")
    case True
    with 1(2) show ?thesis by (auto simp: Let_def first_accepted_def)
  next
    case p0: False
    show ?thesis
    proof (cases "m_range s < candidate s 0")
      case False
      with p0 1(2) have "r = Inr (candidate s 0, ?s)"
        by (auto simp: Let_def candidate_0)
      moreover have "candidate s 0 \<le> m_range s" using False by simp
      ultimately show ?thesis using p0
        by (auto simp: first_accepted_def intro!: exI[of _ 0])
    next
      case True
      with p0 1(2) have "nxt ?s = Some r" by (auto simp: Let_def candidate_0)
      then have "first_accepted ?s r" by (rule 1(1))
      with p0 obtain v s' n where
        r: "r = Inr (v, s')" and
        n: "v = candidate ?s n" "s' = ?s\<lparr>m_index := index_after ?s (Suc n)\<rparr>"
           "candidate ?s n \<le> m_range ?s" "\<forall>k<n. m_range ?s < candidate ?s k"
        unfolding first_accepted_def by (cases r) auto
      have "\<forall>k<Suc n. m_range s < candidate s k"
      proof (intro allI impI)
        fix k assume "k < Suc n"
        then show "m_range s < candidate s k"
          using True n(4) by (cases k) (auto simp: candidate_advance)
      qed
      moreover have "v = candidate s (Suc n)" using n(1) by (simp add: candidate_advance)
      moreover have "s' = s\<lparr>m_index := index_after s (Suc (Suc n))\<rparr>"
        using n(2) by (simp add: index_after_advance del: index_after.simps)
      moreover have "candidate s (Suc n) \<le> m_range s"
        using n(3) by (simp add: candidate_advance)
      ultimately show ?thesis using r p0 unfolding first_accepted_def
        by (auto intro!: exI[of _ "Suc n"] simp del: index_after.simps)
    qed
  qed
qed

lemma next_returned_is_first_accepted:
  assumes "UniqueSeq_next s = Some r"
  shows "case r of
           Inl e \<Rightarrow> m_prime s = 0
         | Inr (v, s') \<Rightarrow> m_prime s \<noteq> 0 \<and>
             (\<exists>n. v = candidate s n \<and> s' = s\<lparr>m_index := index_after s (Suc n)\<rparr> \<and>
                  candidate s n \<le> m_range s \<and> (\<forall>k<n. m_range s < candidate s k))"
  using next_returned_first_accepted[OF assms] by (simp add: first_accepted_def)

lemma next_frame:
  assumes "UniqueSeq_next s = Some (Inr (v, s'))"
  shows "m_prime s' = m_prime s \<and> m_range s' = m_range s \<and>
         m_intermediateOffset s' = m_intermediateOffset s \<and> m_index s' < m_prime s'"
proof -
  from next_returned_is_first_accepted[OF assms] obtain n where
    "m_prime s \<noteq> 0" "s' = s\<lparr>m_index := index_after s (Suc n)\<rparr>" by auto
  then show ?thesis using index_after_less[of s n] by simp
qed

lemma next_ignores_offset_aux:
  assumes "UniqueSeq_next s = Some r"
  shows "UniqueSeq_next (s\<lparr>m_intermediateOffset := off\<rparr>)
       = Some (map_sum id (\<lambda>(v, s'). (v, s'\<lparr>m_intermediateOffset := off\<rparr>)) r)"
proof (cases r)
  case (Inl e)
  with next_returned_is_first_accepted[OF assms] have "m_prime s = 0" by simp
  then have "UniqueSeq_next (s\<lparr>m_intermediateOffset := off\<rparr>) = Some (Inl DivisionByZero)"
    by (subst UniqueSeq_next.simps) (simp add: Let_def)
  then show ?thesis using Inl by (cases e) simp
next
  case (Inr b)
  obtain v s' where b: "b = (v, s')" by (cases b)
  let ?t = "s\<lparr>m_intermediateOffset := off\<rparr>"
  have ia: "index_after ?t k = index_after s k" for k by (induction k) simp_all
  have ca: "candidate ?t k = candidate s k" for k by (simp add: candidate_def ia)
  from next_returned_is_first_accepted[OF assms] Inr b obtain n where
    n: "m_prime s \<noteq> 0" "v = candidate s n" "s' = s\<lparr>m_index := index_after s (Suc n)\<rparr>"
       "candidate s n \<le> m_range s" "\<forall>k<n. m_range s < candidate s k"
    by auto
  have "UniqueSeq_next ?t = Some (Inr (candidate ?t n, ?t\<lparr>m_index := index_after ?t (Suc n)\<rparr>))"
    by (rule next_first_accepted) (use n in \<open>simp_all add: ca\<close>)
  then show ?thesis using Inr b n(2,3) by (simp add: ca ia del: index_after.simps)
qed

lemma next_ignores_offset:
  "UniqueSeq_next (s\<lparr>m_intermediateOffset := off\<rparr>)
     = map_option (map_sum id (\<lambda>(v, s'). (v, s'\<lparr>m_intermediateOffset := off\<rparr>)))
         (UniqueSeq_next s)"
proof (cases "UniqueSeq_next s")
  case (Some r)
  then show ?thesis by (simp add: next_ignores_offset_aux)
next
  case None
  have "UniqueSeq_next (s\<lparr>m_intermediateOffset := off\<rparr>) = None"
  proof (rule ccontr)
    assume "UniqueSeq_next (s\<lparr>m_intermediateOffset := off\<rparr>) \<noteq> None"
    then obtain r where "UniqueSeq_next (s\<lparr>m_intermediateOffset := off\<rparr>) = Some r" by auto
    from next_ignores_offset_aux[OF this, of "m_intermediateOffset s"] None
    show False by simp
  qed
  with None show ?thesis by simp
qed

lemma next_n_returns:
  assumes "2 \<le> unat (m_prime s)" and "1 \<le> m_range s"
  shows "\<exists>vs s'. next_n n s = Some (Inr (vs, s')) \<and> length vs = n \<and>
           m_prime s' = m_prime s \<and> m_range s' = m_range s \<and>
           m_intermediateOffset s' = m_intermediateOffset s \<and>
           (0 < n \<longrightarrow> m_index s' < m_prime s') \<and> (\<forall>v \<in> set vs. v \<le> m_range s)"
  using assms
proof (induction n arbitrary: s)
  case 0
  then show ?case by simp
next
  case (Suc n)
  from next_returns[OF Suc.prems] obtain k where
    k: "candidate s k \<le> m_range s"
       "UniqueSeq_next s = Some (Inr (candidate s k, s\<lparr>m_index := index_after s (Suc k)\<rparr>))"
    by blast
  let ?s = "s\<lparr>m_index := index_after s (Suc k)\<rparr>"
  have p0: "m_prime s \<noteq> 0" using Suc.prems(1) by auto
  have i1: "m_index ?s < m_prime ?s" using index_after_less[OF p0, of k] by simp
  have "2 \<le> unat (m_prime ?s)" "1 \<le> m_range ?s" using Suc.prems by simp_all
  from Suc.IH[OF this] obtain vs s' where
    r: "next_n n ?s = Some (Inr (vs, s'))" "length vs = n"
       "m_prime s' = m_prime s" "m_range s' = m_range s"
       "m_intermediateOffset s' = m_intermediateOffset s"
       "0 < n \<longrightarrow> m_index s' < m_prime s'" "\<forall>v \<in> set vs. v \<le> m_range s"
    by auto
  have "next_n (Suc n) s = Some (Inr (candidate s k # vs, s'))"
    by (simp add: k(2) r(1) del: index_after.simps)
  moreover have "m_index s' < m_prime s'"
  proof (cases n)
    case 0
    with r(1) have "s' = ?s" by simp
    with i1 show ?thesis by simp
  next
    case (Suc m)
    with r(6) show ?thesis by simp
  qed
  ultimately show ?case using r k(1) by simp
qed

lemma ctor_offset:
  assumes "UniqueSeq_ctor rng seed = Some g"
  shows "m_intermediateOffset g = m_prime g - m_range g"
  using assms by (auto simp: UniqueSeq_ctor_def split: option.splits if_splits)

lemma prime_ge_2: "is_prime p \<Longrightarrow> 2 \<le> p"
  by (simp add: is_prime_def)

lemma permuteQPR_less:
  assumes "is_prime (unat p)" and "x < p"
  shows "permuteQPR p x < p"
  using qpr_less[OF assms(1), of "unat x"] assms(2)
  by (simp add: word_less_nat_alt unat_permuteQPR)

lemma index_after_below_prime:
  assumes "m_index s < m_prime s"
  shows "index_after s n < m_prime s"
proof (cases n)
  case 0
  with assms show ?thesis by simp
next
  case (Suc k)
  have "m_prime s \<noteq> 0" using assms by auto
  from index_after_less[OF this, of k] Suc show ?thesis by simp
qed

lemma candidate_below_prime:
  assumes "is_prime (unat (m_prime s))" and "m_index s < m_prime s"
  shows "candidate s n < m_prime s"
  unfolding candidate_def
  by (intro permuteQPR_less[OF assms(1)] index_after_below_prime[OF assms(2)])

lemma next_n_Suc_returned:
  assumes "next_n (Suc n) s = Some (Inr (vs, s'))"
  shows "\<exists>v s1 vs'. UniqueSeq_next s = Some (Inr (v, s1)) \<and>
           next_n n s1 = Some (Inr (vs', s')) \<and> vs = v # vs'"
  using assms by (auto split: option.splits sum.splits prod.splits)

lemma next_n_below_prime:
  assumes "is_prime (unat (m_prime s))" and "m_index s < m_prime s"
    and "next_n n s = Some (Inr (vs, s'))"
  shows "\<forall>v \<in> set vs. v < m_prime s"
  using assms
proof (induction n arbitrary: s vs)
  case 0
  then show ?case by simp
next
  case (Suc n)
  from next_n_Suc_returned[OF Suc.prems(3)] obtain v s1 vs' where
    r: "UniqueSeq_next s = Some (Inr (v, s1))" "next_n n s1 = Some (Inr (vs', s'))" "vs = v # vs'"
    by blast
  from next_returned_is_first_accepted[OF r(1)] obtain k where
    k: "v = candidate s k" by auto
  have v: "v < m_prime s" unfolding k by (rule candidate_below_prime[OF Suc.prems(1,2)])
  from next_frame[OF r(1)] have f: "m_prime s1 = m_prime s" "m_index s1 < m_prime s1" by blast+
  have "\<forall>v \<in> set vs'. v < m_prime s1"
    by (rule Suc.IH[OF _ f(2) r(2)]) (simp add: f(1) Suc.prems(1))
  with v r(3) f(1) show ?case by simp
qed

section \<open>Concrete runs\<close>

lemma ctor_5000000000:
  "UniqueSeq_ctor 5000000000 1 =
     Some \<lparr>m_index = 705032735, m_intermediateOffset = 15, m_prime = 705032719,
           m_range = 705032704\<rparr>"
proof -
  have le: "(705032704 :: u32) \<le> 4294967291" by simp
  from ctor_below_cap[OF le, of 1] obtain g q where
    g: "UniqueSeq_ctor 705032704 1 = Some g" "m_prime g = of_nat q" "m_range g = 705032704"
       "m_index g = permuteQPR (m_prime g) (permuteQPR (m_prime g) 1 + 2 * m_prime g - 705032704)"
       "m_intermediateOffset g = m_prime g - 705032704" and
    q: "is_prime q" "q mod 4 = 3" "unat (705032704 :: u32) \<le> q"
       "\<forall>q'. is_prime q' \<and> q' mod 4 = 3 \<and> unat (705032704 :: u32) \<le> q' \<longrightarrow> q \<le> q'"
    by blast
  have "q \<le> 705032719" using q(4) prime_705032719 by simp
  moreover have "705032704 \<le> q" using q(3) by simp
  ultimately have "q = 705032707 \<or> q = 705032711 \<or> q = 705032715 \<or> q = 705032719"
    using q(2) by presburger
  with q(1) composites_below_705032719 have "q = 705032719" by auto
  then have p: "m_prime g = 705032719" using g(2) by simp
  have i: "m_index g = 705032735"
    using g(4) unfolding p by (simp add: permuteQPR_def word_le_nat_alt)
  have off: "m_intermediateOffset g = 15" using g(5) unfolding p by simp
  have "g = \<lparr>m_index = 705032735, m_intermediateOffset = 15, m_prime = 705032719,
           m_range = 705032704\<rparr>"
    using g(3) p i off by (cases g) simp
  moreover have lit: "(5000000000 :: u32) = 705032704" by simp
  ultimately show ?thesis unfolding lit using g(1) by simp
qed

lemmas eval_prime = is_prime_def atLeastLessThan_nat_numeral

lemmas eval_selector =
  get_next_suitable_prime_def suitable_prime_loop_stop suitable_prime_loop_step
  next_prime_def next_prime_nat_stop next_prime_nat_step eval_prime

lemmas eval_next =
  UniqueSeq_next_accept UniqueSeq_next_reject permuteQPR_def word_le_nat_alt word_less_nat_alt

lemma ctor_3_1:
  "UniqueSeq_ctor 3 1 = Some \<lparr>m_index = 4, m_intermediateOffset = 0, m_prime = 3, m_range = 3\<rparr>"
proof -
  have "get_next_suitable_prime 3 = Some 3" by (simp add: eval_selector)
  then show ?thesis by (simp add: UniqueSeq_ctor_def permuteQPR_def word_le_nat_alt)
qed

lemma ctor_10_1:
  "UniqueSeq_ctor 10 1 = Some \<lparr>m_index = 13, m_intermediateOffset = 1, m_prime = 11, m_range = 10\<rparr>"
proof -
  have "get_next_suitable_prime 10 = Some 11" by (simp add: eval_selector)
  then show ?thesis by (simp add: UniqueSeq_ctor_def permuteQPR_def word_le_nat_alt)
qed

lemma ctor_0_1:
  "UniqueSeq_ctor 0 1 = Some \<lparr>m_index = 7, m_intermediateOffset = 3, m_prime = 3, m_range = 0\<rparr>"
proof -
  have "get_next_suitable_prime 0 = Some 3" by (simp add: eval_selector)
  then show ?thesis by (simp add: UniqueSeq_ctor_def permuteQPR_def word_le_nat_alt)
qed

lemma next_at_3_1:
  "UniqueSeq_next \<lparr>m_index = 4, m_intermediateOffset = 0, m_prime = 3, m_range = 3\<rparr>
     = Some (Inr (2, \<lparr>m_index = 0, m_intermediateOffset = 0, m_prime = 3, m_range = 3\<rparr>))"
  "UniqueSeq_next \<lparr>m_index = 0, m_intermediateOffset = 0, m_prime = 3, m_range = 3\<rparr>
     = Some (Inr (0, \<lparr>m_index = 1, m_intermediateOffset = 0, m_prime = 3, m_range = 3\<rparr>))"
  "UniqueSeq_next \<lparr>m_index = 1, m_intermediateOffset = 0, m_prime = 3, m_range = 3\<rparr>
     = Some (Inr (1, \<lparr>m_index = 2, m_intermediateOffset = 0, m_prime = 3, m_range = 3\<rparr>))"
  "UniqueSeq_next \<lparr>m_index = 2, m_intermediateOffset = 0, m_prime = 3, m_range = 3\<rparr>
     = Some (Inr (2, \<lparr>m_index = 0, m_intermediateOffset = 0, m_prime = 3, m_range = 3\<rparr>))"
  by (simp_all add: eval_next)

lemma next_at_10_1:
  "UniqueSeq_next \<lparr>m_index = 13, m_intermediateOffset = 1, m_prime = 11, m_range = 10\<rparr>
     = Some (Inr (7, \<lparr>m_index = 4, m_intermediateOffset = 1, m_prime = 11, m_range = 10\<rparr>))"
  by (simp add: eval_next)

lemma ctor_4294967293_2:
  "UniqueSeq_ctor 4294967293 2 =
     Some \<lparr>m_index = 4294967293, m_intermediateOffset = 4294967294, m_prime = 4294967291,
           m_range = 4294967293\<rparr>"
  by (simp add: UniqueSeq_ctor_def permuteQPR_def word_le_nat_alt word_less_nat_alt)

lemma next_at_4294967293_2:
  "UniqueSeq_next \<lparr>m_index = 4294967293, m_intermediateOffset = 4294967294,
       m_prime = 4294967291, m_range = 4294967293\<rparr>
     = Some (Inr (4294967293, \<lparr>m_index = 3, m_intermediateOffset = 4294967294,
           m_prime = 4294967291, m_range = 4294967293\<rparr>))"
  by (simp add: eval_next)

section \<open>One period of the index\<close>

text \<open>
  The values returned by a run of calls are the candidates not above the range, in the
  order of the iterations. When the index starts below a prime modulus congruent to 3
  modulo 4, the candidates of one period are a permutation of the values below the
  modulus; when the range is below the modulus, the first \<open>range + 1\<close> values returned
  are therefore a permutation of \<open>[0, range]\<close>.
\<close>

lemma index_after_shift:
  "index_after (s\<lparr>m_index := index_after s m\<rparr>) j = index_after s (m + j)"
  by (induction j) simp_all

lemma candidate_shift:
  "candidate (s\<lparr>m_index := index_after s m\<rparr>) j = candidate s (m + j)"
  by (simp add: candidate_def index_after_shift)

lemma next_n_as_filter:
  assumes "next_n n s = Some (Inr (vs, s'))"
  shows "\<exists>N. vs = filter (\<lambda>v. v \<le> m_range s) (map (candidate s) [0..<N]) \<and>
             s' = s\<lparr>m_index := index_after s N\<rparr> \<and> length vs = n \<and>
             (n = 0 \<longrightarrow> N = 0) \<and>
             (0 < n \<longrightarrow> 0 < N \<and> candidate s (N - 1) \<le> m_range s)"
  using assms
proof (induction n arbitrary: s vs)
  case 0
  then show ?case by (intro exI[of _ 0]) simp
next
  case (Suc n)
  from next_n_Suc_returned[OF Suc.prems] obtain v s1 vs' where
    r: "UniqueSeq_next s = Some (Inr (v, s1))" "next_n n s1 = Some (Inr (vs', s'))" "vs = v # vs'"
    by blast
  from next_returned_is_first_accepted[OF r(1)] obtain k where
    k: "v = candidate s k" "s1 = s\<lparr>m_index := index_after s (Suc k)\<rparr>"
       "candidate s k \<le> m_range s" "\<forall>j<k. m_range s < candidate s j"
    by auto
  from Suc.IH[OF r(2)] obtain N where
    N: "vs' = filter (\<lambda>v. v \<le> m_range s1) (map (candidate s1) [0..<N])"
       "s' = s1\<lparr>m_index := index_after s1 N\<rparr>" "length vs' = n"
       "n = 0 \<longrightarrow> N = 0"
       "0 < n \<longrightarrow> 0 < N \<and> candidate s1 (N - 1) \<le> m_range s1"
    by blast
  have rng: "m_range s1 = m_range s" by (simp add: k(2))
  have c1: "candidate s1 j = candidate s (Suc k + j)" for j
    unfolding k(2) by (rule candidate_shift)
  have i1: "index_after s1 j = index_after s (Suc k + j)" for j
    unfolding k(2) by (rule index_after_shift)
  let ?ok = "\<lambda>v. v \<le> m_range s"
  have "[Suc k..<Suc k + N] = map (\<lambda>i. i + Suc k) [0..<N]"
    using map_add_upt[of "Suc k" N] by (simp only: add.commute)
  then have "map (candidate s) [Suc k..<Suc k + N] = map (\<lambda>i. candidate s (i + Suc k)) [0..<N]"
    by (simp only: map_map comp_def)
  also have "\<dots> = map (candidate s1) [0..<N]"
    by (rule map_cong[OF refl]) (simp only: c1 add.commute)
  finally have "map (candidate s1) [0..<N] = map (candidate s) [Suc k..<Suc k + N]"
    by (rule sym)
  then have tail: "vs' = filter ?ok (map (candidate s) [Suc k..<Suc k + N])"
    using N(1) rng by simp
  have head: "filter ?ok (map (candidate s) [0..<k]) = []"
    using k(4) by (auto simp: filter_empty_conv not_le)
  have "[0..<Suc k + N] = [0..<k] @ [k] @ [Suc k..<Suc k + N]"
    by (metis le_add1 upt_add_eq_append upt_Suc_append zero_le append_assoc append_Cons append_Nil
        add_Suc)
  then have "filter ?ok (map (candidate s) [0..<Suc k + N]) = candidate s k # vs'"
    using head k(3) tail by simp
  then have vs: "vs = filter ?ok (map (candidate s) [0..<Suc k + N])"
    using r(3) k(1) by simp
  have "s' = s1\<lparr>m_index := index_after s (Suc k + N)\<rparr>"
    using N(2) by (simp only: i1)
  then have st: "s' = s\<lparr>m_index := index_after s (Suc k + N)\<rparr>"
    unfolding k(2) by (simp del: index_after.simps)
  have last: "candidate s (Suc k + N - 1) \<le> m_range s"
  proof (cases "N = 0")
    case True
    with k(3) show ?thesis by simp
  next
    case False
    then have "0 < n" using N(4) by auto
    with N(5) have "candidate s1 (N - 1) \<le> m_range s1" by simp
    then show ?thesis using False by (simp add: c1 rng)
  qed
  have len: "length vs = Suc n" using r(3) N(3) by simp
  show ?case
  proof (intro exI[of _ "Suc k + N"] conjI impI)
    show "vs = filter ?ok (map (candidate s) [0..<Suc k + N])" by (rule vs)
    show "s' = s\<lparr>m_index := index_after s (Suc k + N)\<rparr>" by (rule st)
    show "length vs = Suc n" by (rule len)
    show "Suc k + N = 0" if "Suc n = 0" using that by simp
    show "0 < Suc k + N" by simp
    show "candidate s (Suc k + N - 1) \<le> m_range s" by (rule last)
  qed
qed

lemma unat_index_after_start:
  assumes "m_index s < m_prime s"
  shows "unat (index_after s k) = (unat (m_index s) + k) mod unat (m_prime s)"
proof (induction k)
  case 0
  from assms show ?case by (simp add: word_less_nat_alt)
next
  case (Suc k)
  let ?i = "index_after s k"
  have lt: "unat ?i < unat (m_prime s)"
    using index_after_below_prime[OF assms, of k] by (simp add: word_less_nat_alt)
  have "unat ?i + unat (1 :: u32) < 2 ^ LENGTH(32)"
    using lt unat_u32_bound[of "m_prime s"] by simp
  then have "unat (?i + 1) = unat ?i + unat (1 :: u32)" by (simp only: unat_add_lem)
  then have "unat (index_after s (Suc k)) = (unat ?i + 1) mod unat (m_prime s)"
    by (simp add: unat_mod)
  also have "\<dots> = ((unat (m_index s) + k) mod unat (m_prime s) + 1) mod unat (m_prime s)"
    by (simp only: Suc.IH)
  also have "\<dots> = (unat (m_index s) + Suc k) mod unat (m_prime s)"
    by (simp add: mod_Suc_eq)
  finally show ?case .
qed

lemma index_window_inj:
  assumes "m_index s < m_prime s"
  shows "inj_on (index_after s) {..<unat (m_prime s)}"
proof (rule linorder_inj_onI)
  fix j k assume jk: "j < k" and j: "j \<in> {..<unat (m_prime s)}" and k: "k \<in> {..<unat (m_prime s)}"
  let ?p = "unat (m_prime s)" and ?i = "unat (m_index s)"
  show "index_after s j \<noteq> index_after s k"
  proof
    assume "index_after s j = index_after s k"
    then have "(?i + j) mod ?p = (?i + k) mod ?p"
      using unat_index_after_start[OF assms] by metis
    moreover have "?i + j \<le> ?i + k" using jk by simp
    ultimately have "?p dvd (?i + k) - (?i + j)"
      using mod_eq_dvd_iff_nat[of "?i + j" "?i + k" ?p] by simp
    then have "?p dvd k - j" by simp
    moreover have "0 < k - j" "k - j < ?p" using jk k by auto
    ultimately show False by (auto dest: dvd_imp_le)
  qed
qed (simp add: linear)

lemma card_word_less: "card {x :: u32. x < p} = unat p"
proof -
  have "bij_betw unat {x :: u32. x < p} {..<unat p}"
    unfolding bij_betw_def
  proof
    show "inj_on unat {x :: u32. x < p}" by (simp add: inj_on_def word_unat_eq_iff)
    show "unat ` {x :: u32. x < p} = {..<unat p}"
    proof (intro equalityI subsetI)
      fix n assume "n \<in> unat ` {x :: u32. x < p}"
      then show "n \<in> {..<unat p}" by (auto simp: word_less_nat_alt)
    next
      fix n assume n: "n \<in> {..<unat p}"
      then have "n < 2 ^ LENGTH(32)" using unat_u32_bound[of p] by simp
      then have "unat (of_nat n :: u32) = n" by (simp add: unat_of_nat)
      with n show "n \<in> unat ` {x :: u32. x < p}"
        by (intro image_eqI[of _ _ "of_nat n"]) (simp_all add: word_less_nat_alt)
    qed
  qed
  then show ?thesis by (simp add: bij_betw_same_card)
qed

lemma card_word_le: "card {x :: u32. x \<le> r} = unat r + 1"
proof -
  have "bij_betw unat {x :: u32. x \<le> r} {..unat r}"
    unfolding bij_betw_def
  proof
    show "inj_on unat {x :: u32. x \<le> r}" by (simp add: inj_on_def word_unat_eq_iff)
    show "unat ` {x :: u32. x \<le> r} = {..unat r}"
    proof (intro equalityI subsetI)
      fix n assume "n \<in> unat ` {x :: u32. x \<le> r}"
      then show "n \<in> {..unat r}" by (auto simp: word_le_nat_alt)
    next
      fix n assume n: "n \<in> {..unat r}"
      then have "n < 2 ^ LENGTH(32)" using unat_u32_bound[of r] by simp
      then have "unat (of_nat n :: u32) = n" by (simp add: unat_of_nat)
      with n show "n \<in> unat ` {x :: u32. x \<le> r}"
        by (intro image_eqI[of _ _ "of_nat n"]) (simp_all add: word_le_nat_alt)
    qed
  qed
  then show ?thesis by (simp add: bij_betw_same_card)
qed

lemma candidates_of_a_period:
  assumes pr: "is_prime (unat (m_prime s))" and p4: "unat (m_prime s) mod 4 = 3"
    and i: "m_index s < m_prime s"
  shows "distinct (map (candidate s) [0..<unat (m_prime s)]) \<and>
         set (map (candidate s) [0..<unat (m_prime s)]) = {x. x < m_prime s}"
proof -
  let ?p = "m_prime s"
  let ?F = "\<lambda>x. permuteQPR ?p (permuteQPR ?p x)"
  have bij: "bij_betw (permuteQPR ?p) {x. x < ?p} {x. x < ?p}"
    by (rule permuteQPR_bij[OF pr p4])
  have "bij_betw (permuteQPR ?p \<circ> permuteQPR ?p) {x. x < ?p} {x. x < ?p}"
    by (rule bij_betw_trans[OF bij bij])
  then have Finj: "inj_on ?F {x. x < ?p}"
    by (simp add: bij_betw_def comp_def)
  have sub: "index_after s ` {..<unat ?p} \<subseteq> {x. x < ?p}"
    using index_after_below_prime[OF i] by auto
  have cand: "candidate s = ?F \<circ> index_after s"
    by (rule ext) (simp add: candidate_def)
  have inj: "inj_on (candidate s) {..<unat ?p}"
    unfolding cand
    by (rule comp_inj_on[OF index_window_inj[OF i] inj_on_subset[OF Finj sub]])
  have d: "distinct (map (candidate s) [0..<unat ?p])"
    using inj by (simp add: distinct_map atLeast0LessThan)
  have below: "set (map (candidate s) [0..<unat ?p]) \<subseteq> {x. x < ?p}"
    using candidate_below_prime[OF pr i] by auto
  have "card (set (map (candidate s) [0..<unat ?p])) = unat ?p"
    using distinct_card[OF d] by simp
  then have "card (set (map (candidate s) [0..<unat ?p])) = card {x. x < ?p}"
    by (simp add: card_word_less)
  then have "set (map (candidate s) [0..<unat ?p]) = {x. x < ?p}"
    by (intro card_subset_eq[OF _ below]) simp_all
  with d show ?thesis by blast
qed

lemma first_values_permutation_aux:
  assumes pr: "is_prime (unat (m_prime s))" and p4: "unat (m_prime s) mod 4 = 3"
    and r1: "1 \<le> m_range s" and rp: "m_range s < m_prime s" and i: "m_index s < m_prime s"
  shows "\<exists>vs s'. next_n (unat (m_range s) + 1) s = Some (Inr (vs, s')) \<and>
           distinct vs \<and> set vs = {v. v \<le> m_range s}"
proof -
  let ?P = "unat (m_prime s)" and ?r = "m_range s"
  let ?ok = "\<lambda>v. v \<le> ?r"
  let ?c = "candidate s"
  define ws where "ws = filter ?ok (map ?c [0..<?P])"
  from candidates_of_a_period[OF pr p4 i] have
    cs: "distinct (map ?c [0..<?P])" "set (map ?c [0..<?P]) = {x. x < m_prime s}" by blast+
  have dws: "distinct ws" unfolding ws_def using cs(1) by (rule distinct_filter)
  have sws: "set ws = {v. v \<le> ?r}" unfolding ws_def using cs(2) rp by auto
  have lws: "length ws = unat ?r + 1"
    using distinct_card[OF dws] sws by (simp add: card_word_le)
  from next_n_returns[OF prime_ge_2[OF pr] r1, of "unat ?r + 1"] obtain vs s' where
    run: "next_n (unat ?r + 1) s = Some (Inr (vs, s'))" by blast
  from next_n_as_filter[OF run] obtain N where
    N: "vs = filter ?ok (map ?c [0..<N])" "length vs = unat ?r + 1" "0 < N"
       "?c (N - 1) \<le> ?r" by auto
  have NP: "N \<le> ?P"
  proof (rule ccontr)
    assume "\<not> N \<le> ?P"
    then have lt: "?P < N" by simp
    define rest where "rest = filter ?ok (map ?c [?P..<N])"
    have "[0..<N] = [0..<?P] @ [?P..<N]"
      using lt upt_add_eq_append[of 0 ?P "N - ?P"] by simp
    then have split: "vs = ws @ rest"
      unfolding N(1) ws_def rest_def by simp
    have "N - 1 \<in> set [?P..<N]" using lt by auto
    then have "?c (N - 1) \<in> ?c ` set [?P..<N]" by (rule imageI)
    then have "?c (N - 1) \<in> set (map ?c [?P..<N])" by (simp only: set_map)
    with N(4) have "?c (N - 1) \<in> set rest" unfolding rest_def by simp
    then have "rest \<noteq> []" by auto
    then have "length ws < length vs" unfolding split by simp
    with N(2) lws show False by simp
  qed
  define rest where "rest = filter ?ok (map ?c [N..<?P])"
  have "[0..<?P] = [0..<N] @ [N..<?P]"
    using NP upt_add_eq_append[of 0 N "?P - N"] by simp
  then have split: "ws = vs @ rest"
    unfolding N(1) ws_def rest_def by simp
  then have "length ws = length vs + length rest" by simp
  with N(2) lws have "rest = []" by simp
  with split have "vs = ws" by simp
  with run dws sws show ?thesis by blast
qed

lemma first_values_permutation:
  assumes pr: "is_prime (unat (m_prime s))" and p4: "unat (m_prime s) mod 4 = 3"
    and r1: "1 \<le> m_range s" and rp: "m_range s < m_prime s"
  shows "\<exists>vs s'. next_n (unat (m_range s) + 1) s = Some (Inr (vs, s')) \<and>
           distinct vs \<and> set vs = {v. v \<le> m_range s}"
proof (cases "m_index s < m_prime s")
  case True
  from first_values_permutation_aux[OF pr p4 r1 rp True] show ?thesis .
next
  case False
  then have ge: "m_prime s \<le> m_index s" by simp
  let ?s = "s\<lparr>m_index := (m_index s + 1) mod m_prime s\<rparr>"
  have p0: "m_prime s \<noteq> 0" using rp by auto
  have "permuteQPR (m_prime s) (permuteQPR (m_prime s) (m_index s)) = m_index s"
    using ge by (simp add: permuteQPR_def)
  moreover have "m_range s < m_index s" using rp ge by simp
  ultimately have "UniqueSeq_next s = UniqueSeq_next ?s"
    using UniqueSeq_next_reject[OF p0] by simp
  then have same: "next_n (Suc n) s = next_n (Suc n) ?s" for n by simp
  have "m_index ?s < m_prime ?s" using word_mod_less[OF p0] by simp
  from first_values_permutation_aux[OF _ _ _ _ this] pr p4 r1 rp
  have "\<exists>vs s'. next_n (unat (m_range ?s) + 1) ?s = Some (Inr (vs, s')) \<and>
           distinct vs \<and> set vs = {v. v \<le> m_range ?s}" by simp
  then show ?thesis using same[of "unat (m_range s)"] by simp
qed

lemma ctor_first_values_permutation:
  assumes "1 \<le> rng" and "rng \<le> 4294967291"
    and "\<not> (is_prime (unat rng) \<and> unat rng mod 4 = 3)"
  shows "\<exists>g vs s'. UniqueSeq_ctor rng seed = Some g \<and>
           next_n (unat rng + 1) g = Some (Inr (vs, s')) \<and>
           distinct vs \<and> set vs = {v. v \<le> rng}"
proof -
  from ctor_below_cap[OF assms(2), of seed] obtain g q where
    g: "UniqueSeq_ctor rng seed = Some g" "unat (m_prime g) = q" "m_range g = rng"
       "is_prime q" "q mod 4 = 3" "unat rng \<le> q"
    by blast
  have "q \<noteq> unat rng" using assms(3) g(4,5) by auto
  with g(6) have "unat rng < q" by simp
  then have rp: "m_range g < m_prime g" by (simp add: g(2,3) word_less_nat_alt)
  have "1 \<le> m_range g" using assms(1) g(3) by simp
  from first_values_permutation[OF _ _ this rp] g(2,4,5)
  have "\<exists>vs s'. next_n (unat (m_range g) + 1) g = Some (Inr (vs, s')) \<and>
           distinct vs \<and> set vs = {v. v \<le> m_range g}" by simp
  with g(1,3) show ?thesis by auto
qed

lemma values_not_distinct:
  assumes pr: "is_prime (unat (m_prime s))" and i: "m_index s < m_prime s"
    and run: "next_n n s = Some (Inr (vs, s'))" and n: "unat (m_prime s) < n"
  shows "\<not> distinct vs"
proof
  assume d: "distinct vs"
  from next_n_as_filter[OF run] have len: "length vs = n" by blast
  have "set vs \<subseteq> {x. x < m_prime s}"
    using next_n_below_prime[OF pr i run] by auto
  then have "card (set vs) \<le> card {x. x < m_prime s}" by (intro card_mono) simp_all
  then have "length vs \<le> unat (m_prime s)"
    using distinct_card[OF d] by (simp add: card_word_less)
  with len n show False by simp
qed

lemma ctor_4294967291_1:
  "UniqueSeq_ctor 4294967291 1 =
     Some \<lparr>m_index = 4294967292, m_intermediateOffset = 0, m_prime = 4294967291,
           m_range = 4294967291\<rparr>"
proof -
  have le: "(4294967291 :: u32) \<le> 4294967291" by simp
  from ctor_below_cap[OF le, of 1] obtain g q where
    g: "UniqueSeq_ctor 4294967291 1 = Some g" "m_prime g = of_nat q" "m_range g = 4294967291"
       "m_index g = permuteQPR (m_prime g) (permuteQPR (m_prime g) 1 + 2 * m_prime g - 4294967291)"
       "m_intermediateOffset g = m_prime g - 4294967291" and
    q: "unat (4294967291 :: u32) \<le> q" "q \<le> 4294967291"
    by blast
  have "q = 4294967291" using q by simp
  then have p: "m_prime g = 4294967291" using g(2) by simp
  have i: "m_index g = 4294967292"
    using g(4) unfolding p by (simp add: permuteQPR_def word_le_nat_alt)
  have off: "m_intermediateOffset g = 0" using g(5) unfolding p by simp
  have "g = \<lparr>m_index = 4294967292, m_intermediateOffset = 0, m_prime = 4294967291,
           m_range = 4294967291\<rparr>"
    using g(3) p i off by (cases g) simp
  with g(1) show ?thesis by simp
qed

lemma range_4294967291_repeats:
  "\<exists>vs s'. next_n 4294967292 \<lparr>m_index = 4294967292, m_intermediateOffset = 0,
               m_prime = 4294967291, m_range = 4294967291\<rparr> = Some (Inr (vs, s')) \<and>
           \<not> distinct vs"
proof -
  let ?g = "\<lparr>m_index = 4294967292, m_intermediateOffset = 0, m_prime = 4294967291,
            m_range = 4294967291 :: u32\<rparr>"
  let ?s = "\<lparr>m_index = 2, m_intermediateOffset = 0, m_prime = 4294967291,
            m_range = 4294967291 :: u32\<rparr>"
  have "UniqueSeq_next ?g = UniqueSeq_next (?g\<lparr>m_index := (m_index ?g + 1) mod m_prime ?g\<rparr>)"
    by (rule UniqueSeq_next_reject) (simp_all add: permuteQPR_def word_le_nat_alt word_less_nat_alt)
  then have "UniqueSeq_next ?g = UniqueSeq_next ?s" by simp
  then have same: "next_n (Suc n) ?g = next_n (Suc n) ?s" for n by simp
  have pr: "is_prime (unat (m_prime ?s))" using prime_4294967291 by simp
  have i: "m_index ?s < m_prime ?s" by (simp add: word_less_nat_alt)
  have r: "1 \<le> m_range ?s" by (simp add: word_le_nat_alt)
  from next_n_returns[OF prime_ge_2[OF pr] r, of "Suc 4294967291"] obtain vs s' where
    run: "next_n (Suc 4294967291) ?s = Some (Inr (vs, s'))" by blast
  have "\<not> distinct vs" by (rule values_not_distinct[OF pr i run]) simp
  moreover have "(4294967292 :: nat) = Suc 4294967291" by simp
  ultimately show ?thesis using run same[of 4294967291] by (simp del: next_n.simps)
qed

section \<open>Claims\<close>

text \<open>
  C1 says that the first \<open>R + 1\<close> values returned are pairwise distinct and cover
  \<open>[0, R]\<close>, for every range \<open>R\<close> from 1 to 4294967291 and every seed. The code breaks
  this when \<open>R\<close> is itself a prime congruent to 3 modulo 4: the selector then returns
  \<open>R\<close> as the modulus, so the index has period \<open>R\<close> while \<open>R + 1\<close> values are asked
  for. Constructed with range 3 and the default seed 1, the generator has modulus 3 and its
  first four values are 2, 0, 1, 2: the value 2 twice and the value 3 never. (At the upper
  end, range 4294967291 is its own modulus too, and the first 4294967292 values repeat one:
  lemmas \<open>ctor_4294967291_1\<close> and \<open>range_4294967291_repeats\<close>. For every range from 1
  to 4294967291 that is not itself such a prime, the selected prime exceeds the range and
  the property holds: lemma \<open>ctor_first_values_permutation\<close>.)
\<close>

theorem C1_repeats_when_range_is_prime:
  "UniqueSeq_ctor 3 1 = Some \<lparr>m_index = 4, m_intermediateOffset = 0, m_prime = 3, m_range = 3\<rparr> \<and>
   next_n 4 \<lparr>m_index = 4, m_intermediateOffset = 0, m_prime = 3, m_range = 3\<rparr>
     = Some (Inr ([2, 0, 1, 2],
                  \<lparr>m_index = 0, m_intermediateOffset = 0, m_prime = 3, m_range = 3\<rparr>))"
proof -
  have four: "(4 :: nat) = Suc (Suc (Suc (Suc 0)))" by simp
  show ?thesis unfolding four by (simp add: ctor_3_1 next_at_3_1)
qed

text \<open>
  C2. For every prime modulus \<open>p\<close> with \<open>p mod 4 = 3\<close> held in the 32-bit field,
  \<^verbatim>\<open>permuteQPR\<close> maps the values below \<open>p\<close> one-to-one onto the values below \<open>p\<close>: each
  result is below \<open>p\<close>, and distinct arguments below \<open>p\<close> give distinct results.
\<close>

theorem C2_permuteQPR_bijection:
  assumes "is_prime (unat prime)" and "unat prime mod 4 = 3"
  shows "bij_betw (permuteQPR prime) {x. x < prime} {x. x < prime}"
  using assms by (rule permuteQPR_bij)

theorem C2_permuteQPR_bijection_witness:
  "is_prime (unat (11 :: u32)) \<and> unat (11 :: u32) mod 4 = 3 \<and>
   bij_betw (permuteQPR 11) {x. x < 11} {x. x < 11}"
proof -
  have p: "is_prime (unat (11 :: u32))" by (simp add: eval_prime)
  have p4: "unat (11 :: u32) mod 4 = 3" by simp
  show ?thesis using p p4 C2_permuteQPR_bijection[OF p p4] by simp
qed

text \<open>
  C3. For every range from 1 to 4294967291 and every seed, construction returns a
  generator whose modulus is the smallest prime \<open>p\<close> with \<open>p mod 4 = 3\<close> that is at least
  the range; and that modulus is what the probe (the smallest prime strictly greater than
  its argument) yields when it is started at the range minus one and fed its own result
  until the result is congruent to 3 modulo 4.
\<close>

theorem C3_smallest_suitable_prime:
  assumes "1 \<le> rng" and "rng \<le> 4294967291"
  shows "\<exists>g. UniqueSeq_ctor rng seed = Some g \<and>
           is_prime (unat (m_prime g)) \<and> unat (m_prime g) mod 4 = 3 \<and>
           unat rng \<le> unat (m_prime g) \<and>
           (\<forall>q. is_prime q \<and> q mod 4 = 3 \<and> unat rng \<le> q \<longrightarrow> unat (m_prime g) \<le> q) \<and>
           (\<exists>k. unat (m_prime g) = (probe ^^ Suc k) (unat rng - 1) \<and>
                (\<forall>j<k. (probe ^^ Suc j) (unat rng - 1) mod 4 \<noteq> 3))"
  using ctor_below_cap[OF assms(2), of seed] by auto

theorem C3_smallest_suitable_prime_witness:
  "(1 :: u32) \<le> 10 \<and> (10 :: u32) \<le> 4294967291 \<and>
   (\<exists>g. UniqueSeq_ctor 10 1 = Some g \<and> m_prime g = 11)"
proof -
  have h1: "(1 :: u32) \<le> 10" and h2: "(10 :: u32) \<le> 4294967291" by simp_all
  from C3_smallest_suitable_prime[OF h1 h2, of 1] obtain g where
    g: "UniqueSeq_ctor 10 1 = Some g" "is_prime (unat (m_prime g))"
       "unat (10 :: u32) \<le> unat (m_prime g)"
       "\<forall>q. is_prime q \<and> q mod 4 = 3 \<and> unat (10 :: u32) \<le> q \<longrightarrow> unat (m_prime g) \<le> q"
    by blast
  have "is_prime 11" by (simp add: eval_prime)
  with g(4) have "unat (m_prime g) \<le> 11" by simp
  moreover have "10 \<le> unat (m_prime g)" using g(3) by simp
  moreover have "\<not> is_prime 10" by (simp add: eval_prime)
  ultimately have "unat (m_prime g) = 11" using g(2) by (cases "unat (m_prime g) = 10") auto
  then have "m_prime g = 11" by (simp add: word_unat_eq_iff)
  with g(1) h1 h2 show ?thesis by blast
qed

text \<open>
  C4 says that the index is below the prime at every point of the generator's life,
  immediately after construction included. The constructor breaks this: its seeding step
  applies \<^verbatim>\<open>permuteQPR\<close> to \<open>permuteQPR(seed) + 2 * prime - range\<close>, a value that is at
  least the prime unless the 32-bit sum wraps, and \<^verbatim>\<open>permuteQPR\<close> returns such a value
  unchanged. Constructed with range 10 and seed 1, the generator has prime 11 and index 13.
  (After every call of \<^verbatim>\<open>next()\<close> the index is below the prime: lemma \<open>next_frame\<close>.)
\<close>

theorem C4_index_not_below_prime_after_construction:
  "UniqueSeq_ctor 10 1 =
     Some \<lparr>m_index = 13, m_intermediateOffset = 1, m_prime = 11, m_range = 10\<rparr> \<and>
   \<not> (13 :: u32) < 11"
  by (simp add: ctor_10_1 word_less_nat_alt)

text \<open>
  C5. On a generator with a nonzero modulus, \<^verbatim>\<open>next()\<close> returns the value \<open>v\<close> and
  leaves the state \<open>s'\<close> exactly when, for some \<open>n\<close>, the candidates of iterations
  \<open>0, \<dots>, n - 1\<close> all exceed the range, the candidate of iteration \<open>n\<close> does not and
  is \<open>v\<close>, and \<open>s'\<close> is the state with the index advanced \<open>n + 1\<close> times; where the
  candidate of an iteration is the permutation applied twice to the current index, and
  each iteration, accepting or not, advances the index by one modulo the prime. The offset
  takes no part.
\<close>

theorem C5_next_returns_first_accepted_candidate:
  assumes "m_prime s \<noteq> 0"
  shows "UniqueSeq_next s = Some (Inr (v, s')) \<longleftrightarrow>
         (\<exists>n. v = candidate s n \<and> s' = s\<lparr>m_index := index_after s (Suc n)\<rparr> \<and>
              candidate s n \<le> m_range s \<and> (\<forall>k<n. m_range s < candidate s k))"
proof
  assume "UniqueSeq_next s = Some (Inr (v, s'))"
  from next_returned_is_first_accepted[OF this] show
    "\<exists>n. v = candidate s n \<and> s' = s\<lparr>m_index := index_after s (Suc n)\<rparr> \<and>
         candidate s n \<le> m_range s \<and> (\<forall>k<n. m_range s < candidate s k)"
    by simp
next
  assume "\<exists>n. v = candidate s n \<and> s' = s\<lparr>m_index := index_after s (Suc n)\<rparr> \<and>
         candidate s n \<le> m_range s \<and> (\<forall>k<n. m_range s < candidate s k)"
  then obtain n where n: "v = candidate s n" "s' = s\<lparr>m_index := index_after s (Suc n)\<rparr>"
    "candidate s n \<le> m_range s" "\<forall>k<n. m_range s < candidate s k" by blast
  from next_first_accepted[OF assms n(4) n(3)] n(1,2)
  show "UniqueSeq_next s = Some (Inr (v, s'))" by simp
qed

theorem C5_next_returns_first_accepted_candidate_witness:
  "m_prime \<lparr>m_index = 13, m_intermediateOffset = 1, m_prime = 11, m_range = 10\<rparr> \<noteq> 0 \<and>
   (\<exists>n. (7 :: u32) = candidate \<lparr>m_index = 13, m_intermediateOffset = 1, m_prime = 11, m_range = 10\<rparr> n \<and>
        index_after \<lparr>m_index = 13, m_intermediateOffset = 1, m_prime = 11, m_range = 10\<rparr> (Suc n) = 4)"
proof -
  let ?s = "\<lparr>m_index = 13, m_intermediateOffset = 1, m_prime = 11, m_range = 10\<rparr>"
  let ?s' = "\<lparr>m_index = 4, m_intermediateOffset = 1, m_prime = 11, m_range = 10\<rparr>"
  have p: "m_prime ?s \<noteq> 0" by simp
  from C5_next_returns_first_accepted_candidate[OF p, of 7 ?s'] next_at_10_1
  obtain n where "(7 :: u32) = candidate ?s n" "?s' = ?s\<lparr>m_index := index_after ?s (Suc n)\<rparr>"
    by blast
  then have "(7 :: u32) = candidate ?s n \<and> index_after ?s (Suc n) = 4"
    by (simp del: index_after.simps)
  with p show ?thesis by blast
qed

text \<open>
  C6. For every range of at least 1 and every seed, construction returns a generator,
  and after any number \<open>n\<close> of calls the next call returns a value without a fault, after
  \<open>k + 1\<close> iterations of its loop with \<open>k\<close> below the prime: at most as many advances
  of the index as the prime.
\<close>

theorem C6_next_terminates_without_error:
  assumes "1 \<le> rng"
  shows "\<exists>g. UniqueSeq_ctor rng seed = Some g \<and>
           (\<forall>n. \<exists>vs s. next_n n g = Some (Inr (vs, s)) \<and>
              (\<exists>k < unat (m_prime s). \<exists>v s'.
                 UniqueSeq_next s = Some (Inr (v, s')) \<and>
                 v = candidate s k \<and> s' = s\<lparr>m_index := index_after s (Suc k)\<rparr> \<and>
                 v \<le> m_range s \<and> (\<forall>j<k. m_range s < candidate s j)))"
proof -
  from ctor_total[of rng seed] obtain g where
    g: "UniqueSeq_ctor rng seed = Some g" "m_range g = rng" "is_prime (unat (m_prime g))"
    by blast
  have p: "2 \<le> unat (m_prime g)" using g(3) by (rule prime_ge_2)
  have r: "1 \<le> m_range g" using assms g(2) by simp
  have "\<exists>vs s. next_n n g = Some (Inr (vs, s)) \<and>
              (\<exists>k < unat (m_prime s). \<exists>v s'.
                 UniqueSeq_next s = Some (Inr (v, s')) \<and>
                 v = candidate s k \<and> s' = s\<lparr>m_index := index_after s (Suc k)\<rparr> \<and>
                 v \<le> m_range s \<and> (\<forall>j<k. m_range s < candidate s j))" for n
  proof -
    from next_n_returns[OF p r, of n] obtain vs s where
      s: "next_n n g = Some (Inr (vs, s))" "m_prime s = m_prime g" "m_range s = m_range g"
      by blast
    have "2 \<le> unat (m_prime s)" "1 \<le> m_range s" using p r s(2,3) by simp_all
    from next_returns[OF this] s(1) show ?thesis by blast
  qed
  with g(1) show ?thesis by blast
qed

theorem C6_next_terminates_without_error_witness:
  "(1 :: u32) \<le> 10 \<and>
   (\<exists>g. UniqueSeq_ctor 10 1 = Some g \<and> (\<exists>vs s. next_n 3 g = Some (Inr (vs, s))))"
proof -
  have h: "(1 :: u32) \<le> 10" by simp
  from C6_next_terminates_without_error[OF h, of 1] h show ?thesis by blast
qed

text \<open>
  C7 says that constructing with range 5000000000 selects the prime 4294967291. The
  range parameter is an \<^verbatim>\<open>unsigned int\<close>: the literal 5000000000 reaches the constructor
  as 705032704, below the cap, and the selector returns 705032719.
\<close>

theorem C7_literal_5000000000_is_truncated:
  "UniqueSeq_ctor 5000000000 1 =
     Some \<lparr>m_index = 705032735, m_intermediateOffset = 15, m_prime = 705032719,
           m_range = 705032704\<rparr> \<and>
   (705032719 :: u32) \<noteq> 4294967291"
  by (simp add: ctor_5000000000)

text \<open>
  C7, amended. For every range that the 32-bit parameter holds and that exceeds
  4294967291, construction selects the prime 4294967291, every run of calls returns, and
  no value returned after the first exceeds 4294967291. (The first value is left out: the
  constructor can leave the index at or above the prime, see C4, and the first call can
  then return that index, as lemmas \<open>ctor_4294967293_2\<close> and
  \<open>next_at_4294967293_2\<close> show for range 4294967293 and seed 2.)
\<close>

theorem C7_cap_selects_largest_prime:
  assumes "4294967291 < rng"
  shows "\<exists>g. UniqueSeq_ctor rng seed = Some g \<and> m_prime g = 4294967291 \<and>
           (\<forall>n. \<exists>vs s. next_n n g = Some (Inr (vs, s)) \<and>
                (\<forall>v \<in> set (tl vs). v \<le> 4294967291))"
proof -
  define g where "g = \<lparr>m_index = permuteQPR 4294967291 (permuteQPR 4294967291 seed + 2 * 4294967291 - rng),
             m_intermediateOffset = 4294967291 - rng, m_prime = 4294967291, m_range = rng\<rparr>"
  have c: "UniqueSeq_ctor rng seed = Some g" unfolding g_def by (rule ctor_above_cap[OF assms])
  have pg: "m_prime g = 4294967291" by (simp add: g_def)
  have pr: "is_prime (unat (m_prime g))" using prime_4294967291 by (simp add: pg)
  have p: "2 \<le> unat (m_prime g)" by (simp add: pg)
  have r: "1 \<le> m_range g" using assms by (simp add: g_def word_le_nat_alt word_less_nat_alt)
  have "\<exists>vs s. next_n n g = Some (Inr (vs, s)) \<and> (\<forall>v \<in> set (tl vs). v \<le> 4294967291)" for n
  proof -
    from next_n_returns[OF p r, of n] obtain vs s where
      s: "next_n n g = Some (Inr (vs, s))" by blast
    have "\<forall>v \<in> set (tl vs). v < 4294967291"
    proof (cases n)
      case 0
      with s show ?thesis by simp
    next
      case (Suc m)
      from next_n_Suc_returned[OF s[unfolded Suc]] obtain v s1 vs' where
        v: "UniqueSeq_next g = Some (Inr (v, s1))" "next_n m s1 = Some (Inr (vs', s))"
           "vs = v # vs'" by blast
      from next_frame[OF v(1)] have f: "m_prime s1 = m_prime g" "m_index s1 < m_prime s1"
        by blast+
      have "\<forall>v \<in> set vs'. v < m_prime s1"
        by (rule next_n_below_prime[OF _ f(2) v(2)]) (simp add: f(1) pr)
      then show ?thesis by (simp add: v(3) f(1) pg)
    qed
    then have "\<forall>v \<in> set (tl vs). v \<le> 4294967291" by auto
    with s show ?thesis by blast
  qed
  with c pg show ?thesis by blast
qed

theorem C7_cap_selects_largest_prime_witness:
  "(4294967291 :: u32) < 4294967295 \<and>
   (\<exists>g. UniqueSeq_ctor 4294967295 1 = Some g \<and> m_prime g = 4294967291 \<and>
        (\<exists>vs s. next_n 2 g = Some (Inr (vs, s))))"
proof -
  have h: "(4294967291 :: u32) < 4294967295" by simp
  from C7_cap_selects_largest_prime[OF h, of 1] h show ?thesis by blast
qed

text \<open>
  C8 says that construction with range 0 fails with an invalid-argument error. The
  constructor has no check on the range and no failing branch: with range 0 (and seed 1)
  it returns the generator with prime 3.
\<close>

theorem C8_range_zero_constructs:
  "UniqueSeq_ctor 0 1 =
     Some \<lparr>m_index = 7, m_intermediateOffset = 3, m_prime = 3, m_range = 0\<rparr>"
  by (rule ctor_0_1)

text \<open>
  C8, amended. Construction never fails: for every range, 0 included, and every seed it
  returns a generator holding that range.
\<close>

theorem C8_construction_never_fails:
  "\<exists>g. UniqueSeq_ctor rng seed = Some g \<and> m_range g = rng"
  using ctor_total[of rng seed] by blast

text \<open>
  C9. For every range of at least 1 and every seed, two generators constructed with
  these arguments return, over any number \<open>n\<close> of calls, the same \<open>n\<close> values and end
  in the same state.
\<close>

theorem C9_same_arguments_same_sequence:
  assumes "1 \<le> rng"
    and "UniqueSeq_ctor rng seed = Some g1" and "UniqueSeq_ctor rng seed = Some g2"
  shows "\<exists>vs s. next_n n g1 = Some (Inr (vs, s)) \<and> next_n n g2 = Some (Inr (vs, s)) \<and>
           length vs = n"
proof -
  from ctor_total[of rng seed] assms(2) have
    g: "m_range g1 = rng" "is_prime (unat (m_prime g1))" by auto
  have "2 \<le> unat (m_prime g1)" using g(2) by (rule prime_ge_2)
  moreover have "1 \<le> m_range g1" using assms(1) g(1) by simp
  ultimately obtain vs s where "next_n n g1 = Some (Inr (vs, s))" "length vs = n"
    using next_n_returns[of g1 n] by blast
  moreover have "g2 = g1" using assms(2,3) by simp
  ultimately show ?thesis by blast
qed

theorem C9_same_arguments_same_sequence_witness:
  "(1 :: u32) \<le> 10 \<and>
   UniqueSeq_ctor 10 1 = Some \<lparr>m_index = 13, m_intermediateOffset = 1, m_prime = 11, m_range = 10\<rparr> \<and>
   (\<exists>vs s. next_n 5 \<lparr>m_index = 13, m_intermediateOffset = 1, m_prime = 11, m_range = 10\<rparr>
              = Some (Inr (vs, s)) \<and> length vs = 5)"
proof -
  have h: "(1 :: u32) \<le> 10" by simp
  from C9_same_arguments_same_sequence[OF h ctor_10_1 ctor_10_1, of 5] h ctor_10_1
  show ?thesis by blast
qed

text \<open>
  C10. The constructor writes the offset (the prime minus the range). A call of \<^verbatim>\<open>next()\<close>
  that returns leaves the prime, the range and the offset as they were; and the offset is not read: on a state that differs only in the offset, it
  behaves the same (returns the same value and index, faults alike, or fails to return
  alike), the result state carrying the other offset.
\<close>

theorem C10_next_writes_only_index_and_ignores_offset:
  "(UniqueSeq_ctor rng seed = Some g \<longrightarrow>
      m_intermediateOffset g = m_prime g - m_range g) \<and>
   (UniqueSeq_next s = Some (Inr (v, s')) \<longrightarrow>
      m_prime s' = m_prime s \<and> m_range s' = m_range s \<and>
      m_intermediateOffset s' = m_intermediateOffset s) \<and>
   UniqueSeq_next (s\<lparr>m_intermediateOffset := off\<rparr>)
     = map_option (map_sum id (\<lambda>(v, s'). (v, s'\<lparr>m_intermediateOffset := off\<rparr>)))
         (UniqueSeq_next s)"
  using ctor_offset[where rng = rng and seed = seed and g = g]
    next_frame[where s = s and v = v and s' = s']
    next_ignores_offset[where s = s and off = off] by blast

theorem C10_next_writes_only_index_and_ignores_offset_witness:
  "UniqueSeq_next \<lparr>m_index = 13, m_intermediateOffset = 1, m_prime = 11, m_range = 10\<rparr>
     = Some (Inr (7, \<lparr>m_index = 4, m_intermediateOffset = 1, m_prime = 11, m_range = 10\<rparr>)) \<and>
   UniqueSeq_next \<lparr>m_index = 13, m_intermediateOffset = 99, m_prime = 11, m_range = 10\<rparr>
     = Some (Inr (7, \<lparr>m_index = 4, m_intermediateOffset = 99, m_prime = 11, m_range = 10\<rparr>))"
proof -
  let ?s = "\<lparr>m_index = 13, m_intermediateOffset = 1, m_prime = 11, m_range = 10\<rparr>"
  let ?s' = "\<lparr>m_index = 4, m_intermediateOffset = 1, m_prime = 11, m_range = 10\<rparr>"
  from C10_next_writes_only_index_and_ignores_offset[where s = ?s and v = 7 and s' = ?s' and off = 99]
  have "UniqueSeq_next (?s\<lparr>m_intermediateOffset := 99\<rparr>)
     = map_option (map_sum id (\<lambda>(v, s'). (v, s'\<lparr>m_intermediateOffset := 99\<rparr>)))
         (UniqueSeq_next ?s)" by blast
  then show ?thesis by (simp add: next_at_10_1)
qed

end
